theory Spec2Isabelle
  imports Complex_Main "HOL-Library.Word" "HOL-Library.Monad_Syntax"
begin

unbundle bit_operations_syntax

section \<open>Data model of the MD\_HX711 driver\<close>

text \<open>
  Machine integers of the source: \<open>uint8_t\<close>, \<open>int8_t\<close>, \<open>uint32_t\<close> and
  \<open>int32_t\<close> are words of that width; a signed one is read with \<open>sint\<close>.
  Signed arithmetic of the source is modelled with two's-complement wrap-around.
\<close>

type_synonym u8 = "8 word"
type_synonym s8 = "8 word"
type_synonym u32 = "32 word"
type_synonym i32 = "32 word"

text \<open>
  A \<open>float\<close> field is kept as its IEEE-754 binary32 bit pattern, so every stored value
  is a float. The literal \<open>0.0\<close> is the all-zero pattern.
\<close>

type_synonym float32 = "32 word"

definition float_zero :: float32 where
  "float_zero = 0"

subsection \<open>Binary32 arithmetic\<close>

text \<open>
  The value of a float: not-a-number, an infinity with its sign, or a finite value with
  its sign (\<open>True\<close> is negative) and its magnitude; zero has a sign. Arithmetic is IEEE-754
  binary32 with round to nearest, ties to even, and gradual underflow.
\<close>

datatype binary32 = NaN | Infinity bool | Finite bool rat

definition pow2 :: "int \<Rightarrow> rat" where
  "pow2 e = (if 0 \<le> e then 2 ^ nat e else 1 / 2 ^ nat (- e))"

text \<open>
  The binary exponent of a magnitude: \<open>exp_up\<close> halves a magnitude of at least 1 until
  it is below 2, at most \<open>k\<close> times; \<open>exp_down\<close> doubles one below 1 until it reaches 1,
  at most \<open>k\<close> times. \<open>binexp q\<close> is the exponent \<open>e\<close> with \<open>2^e \<le> q < 2^(e+1)\<close>,
  kept between -126 (the subnormal range) and 128 (overflow).
\<close>

fun exp_up :: "nat \<Rightarrow> rat \<Rightarrow> int" where
  "exp_up 0 q = 0"
| "exp_up (Suc k) q = (if 2 \<le> q then exp_up k (q / 2) + 1 else 0)"

fun exp_down :: "nat \<Rightarrow> rat \<Rightarrow> int" where
  "exp_down 0 q = 0"
| "exp_down (Suc k) q = (if q < 1 then exp_down k (q * 2) - 1 else 0)"

definition binexp :: "rat \<Rightarrow> int" where
  "binexp q = (if 1 \<le> q then exp_up 128 q else exp_down 126 q)"

definition round_half_even :: "rat \<Rightarrow> int" where
  "round_half_even x =
     (let f = \<lfloor>x\<rfloor>; r = x - of_int f
      in if r < 1 / 2 then f
         else if 1 / 2 < r then f + 1
         else if even f then f else f + 1)"

text \<open>
  Rounding of an exact magnitude \<open>q\<close> to 24 significant bits: to the nearest multiple of
  the unit in the last place \<open>2^(e - 23)\<close>, to infinity from \<open>2^128\<close> on.
\<close>

definition round32 :: "bool \<Rightarrow> rat \<Rightarrow> binary32" where
  "round32 sg q =
     (let e = binexp q;
          ulp = pow2 (e - 23);
          v = of_int (round_half_even (q / ulp)) * ulp
      in if pow2 128 \<le> v then Infinity sg else Finite sg v)"

text \<open>The value of a bit pattern: sign bit 31, exponent bits 30 to 23, fraction bits 22 to 0.\<close>

definition decode :: "float32 \<Rightarrow> binary32" where
  "decode w =
     (let sg = bit w 31;
          e = unat (drop_bit 23 w AND 0xFF);
          m = unat (w AND 0x7FFFFF)
      in if e = 255 then (if m = 0 then Infinity sg else NaN)
         else if e = 0 then Finite sg (of_nat m * pow2 (- 149))
         else Finite sg (of_nat (2 ^ 23 + m) * pow2 (int e - 150)))"

text \<open>The conversion \<open>float(x)\<close> of an \<open>int32_t\<close>.\<close>

definition float_of_int32 :: "i32 \<Rightarrow> binary32" where
  "float_of_int32 x = round32 (sint x < 0) (of_int \<bar>sint x\<bar>)"

fun signed_val :: "bool \<Rightarrow> rat \<Rightarrow> rat" where
  "signed_val sg q = (if sg then - q else q)"

text \<open>Subtraction, multiplication and division of floats.\<close>

fun fsub :: "binary32 \<Rightarrow> binary32 \<Rightarrow> binary32" where
  "fsub NaN y = NaN"
| "fsub x NaN = NaN"
| "fsub (Infinity s) (Infinity t) = (if s = t then NaN else Infinity s)"
| "fsub (Infinity s) (Finite t q) = Infinity s"
| "fsub (Finite s p) (Infinity t) = Infinity (\<not> t)"
| "fsub (Finite s p) (Finite t q) =
     (let v = signed_val s p - signed_val t q
      in if v = 0 then Finite (s \<and> \<not> t) 0 else round32 (v < 0) \<bar>v\<bar>)"

fun fmul :: "binary32 \<Rightarrow> binary32 \<Rightarrow> binary32" where
  "fmul NaN y = NaN"
| "fmul x NaN = NaN"
| "fmul (Infinity s) (Infinity t) = Infinity (s \<noteq> t)"
| "fmul (Infinity s) (Finite t q) = (if q = 0 then NaN else Infinity (s \<noteq> t))"
| "fmul (Finite s p) (Infinity t) = (if p = 0 then NaN else Infinity (s \<noteq> t))"
| "fmul (Finite s p) (Finite t q) = round32 (s \<noteq> t) (p * q)"

fun fdiv :: "binary32 \<Rightarrow> binary32 \<Rightarrow> binary32" where
  "fdiv NaN y = NaN"
| "fdiv x NaN = NaN"
| "fdiv (Infinity s) (Infinity t) = NaN"
| "fdiv (Infinity s) (Finite t q) = Infinity (s \<noteq> t)"
| "fdiv (Finite s p) (Infinity t) = Finite (s \<noteq> t) 0"
| "fdiv (Finite s p) (Finite t q) =
     (if q = 0 then (if p = 0 then NaN else Infinity (s \<noteq> t))
      else round32 (s \<noteq> t) (p / q))"

text \<open>Addresses of driver objects (the \<open>this\<close> pointer).\<close>

type_synonym addr = nat

datatype channel_t = CH_A | CH_B

datatype mode_t = GAIN_128 | GAIN_64

text \<open>
  The pin-status constants of the Arduino core. The source uses \<open>HIGH\<close> and \<open>LOW\<close> as
  pin levels and passes \<open>LOW\<close> as the trigger mode of \<open>attachInterrupt\<close>, whose other
  modes are \<open>CHANGE\<close>, \<open>FALLING\<close> and \<open>RISING\<close>.
\<close>

datatype PinStatus = LOW | HIGH | CHANGE | FALLING | RISING

text \<open>The four static trampolines \<open>globalISR0\<close> .. \<open>globalISR3\<close>, as function pointers.\<close>

datatype isr = GlobalISR0 | GlobalISR1 | GlobalISR2 | GlobalISR3

text \<open>Calls of the platform primitives, in the order the driver makes them.\<close>

datatype event =
    DigitalWrite u8 PinStatus
  | DigitalRead u8 PinStatus
  | DelayMicroseconds nat
  | AttachInterrupt s8 isr PinStatus
  | DetachInterrupt s8
  | NoInterrupts
  | Interrupts
  | Yield

record channelInfo_t =
  raw :: i32
  tare :: i32
  calib :: i32
  rangeV :: float32

record MD_HX711 =
  pinClk :: u8
  pinDat :: u8
  enableB :: bool
  mode :: mode_t
  nextReadA :: bool
  readCounter :: u32
  chanData :: "channel_t \<Rightarrow> channelInfo_t"
  myISRId :: u8
  inISR :: bool

text \<open>
  The whole system: the platform (\<open>trace\<close> of primitive calls made so far; \<open>line p n\<close>,
  the level pin \<open>p\<close> shows at the \<open>n\<close>-th \<open>digitalRead\<close> of it still to come;
  \<open>pin2irq\<close>, the platform's \<open>digitalPinToInterrupt\<close>), the two static members
  \<open>ISRUsed\<close> and \<open>myInstance[MAX_INSTANCE]\<close>, and the store of driver objects.
\<close>

record system =
  trace :: "event list"
  line :: "u8 \<Rightarrow> nat \<Rightarrow> PinStatus"
  pin2irq :: "u8 \<Rightarrow> s8"
  ISRUsed :: u8
  myInstance :: "u8 \<Rightarrow> addr option"
  objs :: "addr \<Rightarrow> MD_HX711"

definition MAX_INSTANCE :: u8 where
  "MAX_INSTANCE = 4"

definition NUM_CHAN :: u8 where
  "NUM_CHAN = 2"

definition UINT8_MAX :: u8 where
  "UINT8_MAX = 255"

text \<open>The Arduino core's \<open>NOT_AN_INTERRUPT\<close> is \<open>-1\<close>.\<close>

definition NOT_AN_INTERRUPT :: s8 where
  "NOT_AN_INTERRUPT = - 1"

text \<open>\<open>_BV(i)\<close> is \<open>1 << i\<close>; the driver only uses it on the 8-bit \<open>ISRUsed\<close>.\<close>

definition BV :: "u8 \<Rightarrow> u8" where
  "BV i = push_bit (unat i) 1"

text \<open>\<open>channel_t\<close> as an array index: \<open>CH_A = 0\<close>, \<open>CH_B = 1\<close>.\<close>

definition channel_of :: "u8 \<Rightarrow> channel_t" where
  "channel_of i = (if i = 0 then CH_A else CH_B)"

section \<open>Platform primitives\<close>

definition emit :: "event \<Rightarrow> system \<Rightarrow> system" where
  "emit e s = s\<lparr>trace := trace s @ [e]\<rparr>"

definition digitalWrite :: "u8 \<Rightarrow> PinStatus \<Rightarrow> system \<Rightarrow> system" where
  "digitalWrite p v s = emit (DigitalWrite p v) s"

definition digitalRead :: "u8 \<Rightarrow> system \<Rightarrow> PinStatus \<times> system" where
  "digitalRead p s =
     (let v = line s p 0
      in (v, emit (DigitalRead p v) (s\<lparr>line := (line s)(p := (\<lambda>n. line s p (Suc n)))\<rparr>)))"

definition delayMicroseconds :: "nat \<Rightarrow> system \<Rightarrow> system" where
  "delayMicroseconds n s = emit (DelayMicroseconds n) s"

definition attachInterrupt :: "s8 \<Rightarrow> isr \<Rightarrow> PinStatus \<Rightarrow> system \<Rightarrow> system" where
  "attachInterrupt irq f m s = emit (AttachInterrupt irq f m) s"

definition detachInterrupt :: "s8 \<Rightarrow> system \<Rightarrow> system" where
  "detachInterrupt irq s = emit (DetachInterrupt irq) s"

definition noInterrupts :: "system \<Rightarrow> system" where
  "noInterrupts s = emit NoInterrupts s"

definition interrupts :: "system \<Rightarrow> system" where
  "interrupts s = emit Interrupts s"

definition yield :: "system \<Rightarrow> system" where
  "yield s = emit Yield s"

section \<open>The driver's methods\<close>

text \<open>Update of the object at \<open>this\<close>.\<close>

definition upd :: "addr \<Rightarrow> (MD_HX711 \<Rightarrow> MD_HX711) \<Rightarrow> system \<Rightarrow> system" where
  "upd this f s = s\<lparr>objs := (objs s)(this := f (objs s this))\<rparr>"

definition enableChannelB :: "addr \<Rightarrow> bool \<Rightarrow> system \<Rightarrow> system" where
  "enableChannelB this ena s = upd this (\<lambda>ob. ob\<lparr>enableB := ena\<rparr>) s"

definition setGainA :: "addr \<Rightarrow> mode_t \<Rightarrow> system \<Rightarrow> system" where
  "setGainA this m s = upd this (\<lambda>ob. ob\<lparr>mode := m\<rparr>) s"

definition setZeroTare :: "addr \<Rightarrow> i32 \<Rightarrow> channel_t \<Rightarrow> system \<Rightarrow> system" where
  "setZeroTare this t ch s =
     upd this (\<lambda>ob. ob\<lparr>chanData := (chanData ob)(ch := (chanData ob ch)\<lparr>tare := t\<rparr>)\<rparr>) s"

definition setCalibration :: "addr \<Rightarrow> i32 \<Rightarrow> float32 \<Rightarrow> channel_t \<Rightarrow> system \<Rightarrow> system" where
  "setCalibration this v rng ch s =
     upd this (\<lambda>ob. ob\<lparr>chanData := (chanData ob)(ch := (chanData ob ch)\<lparr>calib := v, rangeV := rng\<rparr>)\<rparr>) s"

definition getCalibration :: "addr \<Rightarrow> channel_t \<Rightarrow> system \<Rightarrow> i32" where
  "getCalibration this ch s = calib (chanData (objs s this) ch)"

definition getRaw :: "addr \<Rightarrow> channel_t \<Rightarrow> system \<Rightarrow> i32" where
  "getRaw this ch s = raw (chanData (objs s this) ch)"

definition getZeroTare :: "addr \<Rightarrow> channel_t \<Rightarrow> system \<Rightarrow> i32" where
  "getZeroTare this ch s = tare (chanData (objs s this) ch)"

definition getTared :: "addr \<Rightarrow> channel_t \<Rightarrow> system \<Rightarrow> i32" where
  "getTared this ch s = raw (chanData (objs s this) ch) - tare (chanData (objs s this) ch)"

text \<open>
  \<open>getCalibrated\<close>: the guard compares the \<open>int32_t\<close> difference with 0, the quotient
  is computed on the floats \<open>float(raw)\<close>, \<open>float(tare)\<close> and \<open>float(calib)\<close>; \<open>NAN\<close> is
  the not-a-number.
\<close>

definition getCalibrated :: "addr \<Rightarrow> channel_t \<Rightarrow> system \<Rightarrow> binary32" where
  "getCalibrated this ch s =
     (let cd = chanData (objs s this) ch
      in if calib cd - tare cd = 0 then NaN
         else fdiv (fmul (decode (rangeV cd))
                      (fsub (float_of_int32 (raw cd)) (float_of_int32 (tare cd))))
                (fsub (float_of_int32 (calib cd)) (float_of_int32 (tare cd))))"

definition getReadCount :: "addr \<Rightarrow> system \<Rightarrow> u32" where
  "getReadCount this s = readCounter (objs s this)"

definition isInterruptMode :: "addr \<Rightarrow> system \<Rightarrow> bool" where
  "isInterruptMode this s = (myISRId (objs s this) \<noteq> UINT8_MAX)"

definition isReady :: "addr \<Rightarrow> system \<Rightarrow> bool \<times> system" where
  "isReady this s = (case digitalRead (pinDat (objs s this)) s of (v, s1) \<Rightarrow> (v = LOW, s1))"

definition powerDown :: "addr \<Rightarrow> system \<Rightarrow> system" where
  "powerDown this s =
     delayMicroseconds 64 (digitalWrite (pinClk (objs s this)) HIGH s)"

definition powerUp :: "addr \<Rightarrow> system \<Rightarrow> system" where
  "powerUp this s = digitalWrite (pinClk (objs s this)) LOW s"

subsection \<open>\<open>HX711ReadData\<close>\<close>

text \<open>The first \<open>do ... while (mask > 0)\<close> loop: one clock pulse and one sample per turn.\<close>

function HX711ReadData_bits :: "u8 \<Rightarrow> u8 \<Rightarrow> u32 \<Rightarrow> i32 \<Rightarrow> system \<Rightarrow> i32 \<times> system" where
  "HX711ReadData_bits clk data msk val s =
     (let s1 = digitalWrite clk HIGH s;
          s2 = delayMicroseconds 1 s1;
          r = digitalRead data s2;
          val' = (if fst r = HIGH then val OR msk else val);
          s4 = digitalWrite clk LOW (snd r);
          s5 = delayMicroseconds 1 s4;
          msk' = drop_bit 1 msk
      in if msk' > 0 then HX711ReadData_bits clk data msk' val' s5 else (val', s5))"
  by pat_completeness auto
termination
proof (relation "measure (\<lambda>(clk, data, msk, val, s). unat msk)")
  show "wf (measure (\<lambda>(clk, data, msk, val, s). unat msk))"
    by simp
next
  fix clk data :: u8 and msk :: u32 and val :: i32 and s s1 s2 s4 s5 :: system
    and r :: "PinStatus \<times> system" and val' :: i32 and msk' :: u32
  assume m: "msk' = drop_bit 1 msk" and pos: "0 < msk'"
  have "unat msk' = unat msk div 2"
    by (simp add: m drop_bit_eq_div unat_div)
  moreover have "0 < unat msk'"
    using pos by (simp add: word_greater_zero_iff unat_gt_0)
  ultimately have "unat msk' < unat msk"
    by linarith
  then show "((clk, data, msk', val', s5), (clk, data, msk, val, s))
      \<in> measure (\<lambda>(clk, data, msk, val, s). unat msk)"
    by simp
qed

declare HX711ReadData_bits.simps [simp del]

text \<open>The second \<open>do ... while (mode > 0)\<close> loop: one unsampled pulse per turn.\<close>

function HX711ReadData_extras :: "u8 \<Rightarrow> u8 \<Rightarrow> system \<Rightarrow> system" where
  "HX711ReadData_extras clk m s =
     (let s1 = digitalWrite clk HIGH s;
          s2 = delayMicroseconds 1 s1;
          s3 = digitalWrite clk LOW s2;
          s4 = delayMicroseconds 1 s3;
          m' = m - 1
      in if m' > 0 then HX711ReadData_extras clk m' s4 else s4)"
  by pat_completeness auto
termination
proof (relation "measure (\<lambda>(clk, m, s). unat (m - 1))")
  show "wf (measure (\<lambda>(clk, m, s). unat (m - 1)))"
    by simp
next
  fix clk :: u8 and m m' :: u8 and s s1 s2 s3 s4 :: system
  assume m: "m' = m - 1" and pos: "0 < m'"
  have nz: "m' \<noteq> 0"
    using pos by (simp add: word_greater_zero_iff)
  then have "0 < unat m'"
    by (simp add: unat_gt_0)
  then have "unat (m' - 1) < unat m'"
    using nz by (simp add: unat_minus_one)
  then show "((clk, m', s4), (clk, m, s)) \<in> measure (\<lambda>(clk, m, s). unat (m - 1))"
    by (simp add: m)
qed

declare HX711ReadData_extras.simps [simp del]

definition HX711ReadData :: "addr \<Rightarrow> u8 \<Rightarrow> system \<Rightarrow> i32 \<times> system" where
  "HX711ReadData this m s =
     (let clk = pinClk (objs s this);
          data = pinDat (objs s this);
          r = HX711ReadData_bits clk data 0x800000 0 s
      in (fst r, HX711ReadData_extras clk m (snd r)))"

subsection \<open>\<open>readNB\<close> and \<open>read\<close>\<close>

text \<open>
  The number of extra clock pulses \<open>readNB\<close> asks for, from the object's state after the
  next-channel flag has been set (lines "now work out how many extra clock cycles").
\<close>

definition readNB_extras :: "MD_HX711 \<Rightarrow> u8" where
  "readNB_extras ob =
     (if \<not> nextReadA ob then 2
      else if mode ob = GAIN_128 then 1
      else 3)"

text \<open>The sign extension of \<open>readNB\<close>: \<open>if (value & 0x800000) value |= 0xff000000\<close>.\<close>

definition sign_extend :: "i32 \<Rightarrow> i32" where
  "sign_extend v = (if v AND 0x800000 \<noteq> 0 then v OR 0xff000000 else v)"

text \<open>The channel index the value is saved to, also the result of \<open>read\<close>.\<close>

definition read_channel :: "MD_HX711 \<Rightarrow> channel_t" where
  "read_channel ob = (if enableB ob \<and> nextReadA ob then CH_B else CH_A)"

definition readNB :: "addr \<Rightarrow> system \<Rightarrow> system" where
  "readNB this s =
     (let s1 = upd this (\<lambda>ob. ob\<lparr>inISR := True\<rparr>) s;
          s2 = (if enableB (objs s1 this)
                then upd this (\<lambda>ob. ob\<lparr>nextReadA := \<not> nextReadA ob\<rparr>) s1
                else s1);
          extras = readNB_extras (objs s2 this);
          s3 = noInterrupts s2;
          r = HX711ReadData this extras s3;
          s4 = interrupts (snd r);
          val = sign_extend (fst r);
          ch = read_channel (objs s4 this);
          s5 = upd this (\<lambda>ob. ob\<lparr>chanData := (chanData ob)(ch := (chanData ob ch)\<lparr>raw := val\<rparr>)\<rparr>) s4;
          s6 = upd this (\<lambda>ob. ob\<lparr>readCounter := readCounter ob + 1\<rparr>) s5
      in upd this (\<lambda>ob. ob\<lparr>inISR := False\<rparr>) s6)"

text \<open>
  \<open>while (!isReady()) { yield(); }\<close>: the loop ends only when the data line shows
  \<open>LOW\<close>; a loop that never ends is \<open>None\<close>.
\<close>

partial_function (option) read_wait :: "addr \<Rightarrow> system \<Rightarrow> system option" where
  "read_wait this s =
     (let r = isReady this s
      in if \<not> fst r then read_wait this (yield (snd r)) else Some (snd r))"

definition read :: "addr \<Rightarrow> system \<Rightarrow> (channel_t \<times> system) option" where
  "read this s =
     do {
       s1 \<leftarrow> (if \<not> isInterruptMode this s
              then do { s' \<leftarrow> read_wait this s; Some (readNB this s') }
              else Some s);
       Some (read_channel (objs s1 this), s1)
     }"

subsection \<open>The interrupt registry: \<open>enableISR\<close>, \<open>disableISR\<close>, the trampolines\<close>

text \<open>The lookup table \<open>ISRfunc[MAX_INSTANCE]\<close> of \<open>enableISR\<close>.\<close>

definition ISRfunc :: "isr list" where
  "ISRfunc = [GlobalISR0, GlobalISR1, GlobalISR2, GlobalISR3]"

text \<open>
  The \<open>for\<close> loop of \<open>enableISR\<close>, from index \<open>i\<close> on: the first free slot is
  taken and the loop is left.
\<close>

function enableISR_alloc :: "u8 \<Rightarrow> addr \<Rightarrow> system \<Rightarrow> system" where
  "enableISR_alloc i this s =
     (if i < MAX_INSTANCE then
        (if ISRUsed s AND BV i = 0 then
           (let s1 = upd this (\<lambda>ob. ob\<lparr>myISRId := i\<rparr>) s;
                s2 = s1\<lparr>myInstance := (myInstance s1)(myISRId (objs s1 this) := Some this)\<rparr>
            in s2\<lparr>ISRUsed := ISRUsed s2 OR BV (myISRId (objs s2 this))\<rparr>)
         else enableISR_alloc (i + 1) this s)
      else s)"
  by pat_completeness auto
termination
proof (relation "measure (\<lambda>(i, this, s). 4 - unat i)")
  show "wf (measure (\<lambda>(i, this, s). 4 - unat i))"
    by simp
next
  fix i :: u8 and this :: addr and s :: system
  assume "i < MAX_INSTANCE"
  then have lt: "unat i < 4"
    by (simp add: MAX_INSTANCE_def word_less_nat_alt)
  then have "unat (i + 1) = unat i + 1"
    by (simp add: unat_word_ariths)
  with lt show "((i + 1, this, s), (i, this, s)) \<in> measure (\<lambda>(i, this, s). 4 - unat i)"
    by simp
qed

declare enableISR_alloc.simps [simp del]

definition enableISR :: "addr \<Rightarrow> system \<Rightarrow> bool \<times> system" where
  "enableISR this s =
     (let irq = pin2irq s (pinDat (objs s this))
      in if isInterruptMode this s then (False, s)
         else if irq \<noteq> NOT_AN_INTERRUPT then
           (let s1 = enableISR_alloc 0 this s
            in if myISRId (objs s1 this) \<noteq> UINT8_MAX then
                 (let s2 = attachInterrupt irq (ISRfunc ! unat (myISRId (objs s1 this))) LOW s1;
                      s3 = powerDown this s2;
                      s4 = powerUp this s3
                  in (irq \<noteq> NOT_AN_INTERRUPT, s4))
               else (let irq' = NOT_AN_INTERRUPT in (irq' \<noteq> NOT_AN_INTERRUPT, s1)))
         else (irq \<noteq> NOT_AN_INTERRUPT, s))"

text \<open>
  \<open>while (_inISR) { yield(); }\<close>: nothing in the loop clears the flag, it waits for an
  interrupt handler in flight to do so.
\<close>

partial_function (option) disableISR_wait :: "addr \<Rightarrow> system \<Rightarrow> system option" where
  "disableISR_wait this s =
     (if inISR (objs s this) then disableISR_wait this (yield s) else Some s)"

definition disableISR :: "addr \<Rightarrow> system \<Rightarrow> system option" where
  "disableISR this s =
     do {
       s1 \<leftarrow> (if isInterruptMode this s
              then do {
                s' \<leftarrow> disableISR_wait this s;
                let s2 = noInterrupts s';
                    s3 = detachInterrupt (pin2irq s2 (pinDat (objs s2 this))) s2;
                    s4 = s3\<lparr>ISRUsed := ISRUsed s3 AND NOT (BV (myISRId (objs s3 this)))\<rparr>
                in Some (interrupts s4)
              }
              else Some s);
       Some (upd this (\<lambda>ob. ob\<lparr>myISRId := UINT8_MAX, inISR := False\<rparr>) s1)
     }"

definition enableInterruptMode :: "addr \<Rightarrow> bool \<Rightarrow> system \<Rightarrow> (bool \<times> system) option" where
  "enableInterruptMode this enable s =
     (if enable then Some (enableISR this s)
      else do { s' \<leftarrow> disableISR this s; Some (True, s') })"

text \<open>
  The trampolines: \<open>globalISRn\<close> calls \<open>readNB\<close> on \<open>myInstance[n]\<close>; with no
  instance recorded there is nothing it could call.
\<close>

definition slot_of :: "isr \<Rightarrow> u8" where
  "slot_of f = (case f of GlobalISR0 \<Rightarrow> 0 | GlobalISR1 \<Rightarrow> 1 | GlobalISR2 \<Rightarrow> 2 | GlobalISR3 \<Rightarrow> 3)"

definition globalISR :: "isr \<Rightarrow> system \<Rightarrow> system option" where
  "globalISR f s =
     (case myInstance s (slot_of f) of
        None \<Rightarrow> None
      | Some p \<Rightarrow> Some (readNB p s))"

subsection \<open>\<open>reset\<close>\<close>

text \<open>The \<open>for\<close> loop of \<open>reset\<close> over the channels, from index \<open>ch\<close> on.\<close>

function reset_chans :: "u8 \<Rightarrow> addr \<Rightarrow> system \<Rightarrow> system" where
  "reset_chans ch this s =
     (if ch < NUM_CHAN then
        reset_chans (ch + 1) this
          (upd this (\<lambda>ob. ob\<lparr>chanData := (chanData ob)(channel_of ch :=
             (chanData ob (channel_of ch))\<lparr>raw := 0, tare := 0, calib := 0, rangeV := float_zero\<rparr>)\<rparr>) s)
      else s)"
  by pat_completeness auto
termination
proof (relation "measure (\<lambda>(ch, this, s). 2 - unat ch)")
  show "wf (measure (\<lambda>(ch, this, s). 2 - unat ch))"
    by simp
next
  fix ch :: u8 and this :: addr and s :: system
  assume "ch < NUM_CHAN"
  then have lt: "unat ch < 2"
    by (simp add: NUM_CHAN_def word_less_nat_alt)
  then have "unat (ch + 1) = unat ch + 1"
    by (simp add: unat_word_ariths)
  with lt show "((ch + 1, this,
      upd this (\<lambda>ob. ob\<lparr>chanData := (chanData ob)(channel_of ch :=
             (chanData ob (channel_of ch))\<lparr>raw := 0, tare := 0, calib := 0, rangeV := float_zero\<rparr>)\<rparr>) s),
      (ch, this, s)) \<in> measure (\<lambda>(ch, this, s). 2 - unat ch)"
    by simp
qed

declare reset_chans.simps [simp del]

definition reset :: "addr \<Rightarrow> system \<Rightarrow> system option" where
  "reset this s =
     (let s1 = powerDown this s;
          s2 = powerUp this s1;
          s3 = enableChannelB this False s2;
          s4 = setGainA this GAIN_128 s3
      in do {
        s5 \<leftarrow> disableISR this s4;
        let s6 = upd this (\<lambda>ob. ob\<lparr>nextReadA := True\<rparr>) s5;
            s7 = upd this (\<lambda>ob. ob\<lparr>readCounter := 0\<rparr>) s6
        in Some (reset_chans 0 this s7)
      })"

section \<open>Vocabulary of the properties\<close>

text \<open>One sampled clock pulse, and one clock pulse without a sample, as platform calls.\<close>

definition sampled_pulse :: "u8 \<Rightarrow> u8 \<Rightarrow> PinStatus \<Rightarrow> event list" where
  "sampled_pulse clk data v =
     [DigitalWrite clk HIGH, DelayMicroseconds 1, DigitalRead data v,
      DigitalWrite clk LOW, DelayMicroseconds 1]"

definition plain_pulse :: "u8 \<Rightarrow> event list" where
  "plain_pulse clk =
     [DigitalWrite clk HIGH, DelayMicroseconds 1, DigitalWrite clk LOW, DelayMicroseconds 1]"

text \<open>
  The platform calls of one read cycle: 24 sampled pulses showing the levels \<open>f 0\<close>,
  \<open>f 1\<close>, ..., then \<open>n\<close> pulses without a sample.
\<close>

definition read_cycle_events :: "u8 \<Rightarrow> u8 \<Rightarrow> (nat \<Rightarrow> PinStatus) \<Rightarrow> nat \<Rightarrow> event list" where
  "read_cycle_events clk data f n =
     concat (map (\<lambda>i. sampled_pulse clk data (f i)) [0..<24]) @ concat (replicate n (plain_pulse clk))"

text \<open>The number of rising clock edges in a list of platform calls.\<close>

definition clock_pulses :: "u8 \<Rightarrow> event list \<Rightarrow> nat" where
  "clock_pulses clk es = length (filter (\<lambda>e. e = DigitalWrite clk HIGH) es)"

text \<open>
  The word shifted in most-significant bit first from the levels \<open>f 0\<close>, ..., \<open>f k\<close>:
  \<open>f 0\<close> lands on bit \<open>k\<close>.
\<close>

fun shifted_in :: "nat \<Rightarrow> (nat \<Rightarrow> PinStatus) \<Rightarrow> u32" where
  "shifted_in 0 f = (if f 0 = HIGH then 1 else 0)"
| "shifted_in (Suc k) f = (if f 0 = HIGH then 2 ^ Suc k else 0) OR shifted_in k (\<lambda>n. f (Suc n))"

text \<open>The platform after \<open>n\<close> reads of pin \<open>p\<close> and the calls \<open>es\<close>.\<close>

definition after_reads :: "u8 \<Rightarrow> nat \<Rightarrow> event list \<Rightarrow> system \<Rightarrow> system" where
  "after_reads p n es s =
     s\<lparr>trace := trace s @ es, line := (line s)(p := (\<lambda>i. line s p (i + n)))\<rparr>"

text \<open>The object after one \<open>readNB\<close> that read the 24-bit pattern \<open>v\<close>.\<close>

definition readNB_obj :: "MD_HX711 \<Rightarrow> i32 \<Rightarrow> MD_HX711" where
  "readNB_obj ob v =
     (let ob1 = (if enableB ob then ob\<lparr>nextReadA := \<not> nextReadA ob\<rparr> else ob);
          ch = read_channel ob1
      in ob1\<lparr>chanData := (chanData ob1)(ch := (chanData ob1 ch)\<lparr>raw := sign_extend v\<rparr>),
              readCounter := readCounter ob1 + 1, inISR := False\<rparr>)"

text \<open>The object after \<open>reset\<close>, field by field in the order \<open>reset\<close> assigns them.\<close>

definition reset_obj :: "MD_HX711 \<Rightarrow> MD_HX711" where
  "reset_obj ob =
     ob\<lparr>enableB := False, mode := GAIN_128, myISRId := UINT8_MAX, inISR := False,
        nextReadA := True, readCounter := 0,
        chanData := (\<lambda>ch. (chanData ob ch)\<lparr>raw := 0, tare := 0, calib := 0, rangeV := float_zero\<rparr>)\<rparr>"

text \<open>
  The system after the object at \<open>this\<close> has taken slot \<open>i\<close> of the registry:
  the interrupt is attached, the device power-cycled.
\<close>

definition attached :: "u8 \<Rightarrow> addr \<Rightarrow> system \<Rightarrow> system" where
  "attached i this s =
     s\<lparr>trace := trace s @
          [AttachInterrupt (pin2irq s (pinDat (objs s this))) (ISRfunc ! unat i) LOW,
           DigitalWrite (pinClk (objs s this)) HIGH, DelayMicroseconds 64,
           DigitalWrite (pinClk (objs s this)) LOW],
        ISRUsed := ISRUsed s OR BV i,
        myInstance := (myInstance s)(i := Some this),
        objs := (objs s)(this := (objs s this)\<lparr>myISRId := i\<rparr>)\<rparr>"

text \<open>A float that is neither not-a-number nor infinite; a float that is a zero.\<close>

definition is_finite :: "binary32 \<Rightarrow> bool" where
  "is_finite x = (case x of Finite s q \<Rightarrow> True | _ \<Rightarrow> False)"

definition is_zero :: "binary32 \<Rightarrow> bool" where
  "is_zero x = (case x of Finite s q \<Rightarrow> q = 0 | _ \<Rightarrow> False)"

text \<open>
  A concrete system for the examples: the object at address \<open>a\<close> has data pin \<open>a\<close>
  and clock pin \<open>a + 10\<close>, pins 0 to 7 have an interrupt, every data line alternates
  \<open>HIGH\<close>, \<open>LOW\<close>, ..., no slot of the registry is taken.
\<close>

definition example_obj :: "addr \<Rightarrow> MD_HX711" where
  "example_obj a =
     \<lparr>pinClk = of_nat a + 10, pinDat = of_nat a, enableB = False, mode = GAIN_128,
      nextReadA = True, readCounter = 0,
      chanData = (\<lambda>ch. \<lparr>raw = 0, tare = 0, calib = 0, rangeV = float_zero\<rparr>),
      myISRId = UINT8_MAX, inISR = False\<rparr>"

definition example_system :: system where
  "example_system =
     \<lparr>trace = [], line = (\<lambda>p n. if even n then HIGH else LOW),
      pin2irq = (\<lambda>p. if p < 8 then p else NOT_AN_INTERRUPT),
      ISRUsed = 0, myInstance = (\<lambda>i. None), objs = example_obj\<rparr>"

text \<open>The example system after the objects 0, 1, 2 and 3 have attached, in this order.\<close>

definition example_attached4 :: system where
  "example_attached4 =
     snd (enableISR 3 (snd (enableISR 2 (snd (enableISR 1 (snd (enableISR 0 example_system)))))))"

text \<open>
  The example system after Channel B was enabled, read once and disabled (the
  next-channel flag is left on B), and after the same was done once more from there (the
  flag is back on A).
\<close>

definition example_flag_on_B :: system where
  "example_flag_on_B =
     enableChannelB 0 False ((readNB 0 ^^ Suc 0) (enableChannelB 0 True example_system))"

definition example_flag_back_on_A :: system where
  "example_flag_back_on_A =
     enableChannelB 0 False ((readNB 0 ^^ Suc 0) (enableChannelB 0 True example_flag_on_B))"

text \<open>
  The example system with tare -1000, calibration value 1000 and range 5.0 on Channel A,
  and with tare \<open>2^24\<close>, calibration value \<open>2^24 + 1\<close> and range 0.0.
\<close>

definition example_calibrated :: system where
  "example_calibrated =
     setCalibration 0 1000 0x40A00000 CH_A (setZeroTare 0 (- 1000) CH_A example_system)"

definition example_large_tare :: system where
  "example_large_tare =
     setCalibration 0 16777217 0 CH_A (setZeroTare 0 16777216 CH_A example_system)"

section \<open>Sign extension\<close>

lemma and_bit23: "(v AND 0x800000 \<noteq> 0) = bit (v::32 word) 23"
proof -
  have "(0x800000 :: 32 word) = 2 ^ 23" by simp
  then show ?thesis by (simp only: and_exp_eq_0_iff_not_bit) simp
qed

lemma se_disj:
  assumes "(v::32 word) < 2 ^ 24"
  shows "v AND 0xff000000 = 0"
proof -
  have c: "(0xff000000 :: 32 word) = NOT (mask 24)"
    by (simp add: not_eq_complement mask_eq_exp_minus_1)
  have "v AND mask 24 = v" using assms by (rule less_mask_eq)
  then have tb: "take_bit 24 v = v" by (simp add: take_bit_eq_mask)
  have "take_bit 24 v AND NOT (mask 24) = 0"
    by (rule bit_word_eqI) (auto simp: bit_simps)
  then have "v AND NOT (mask 24) = 0" by (simp only: tb)
  then show ?thesis by (simp only: c)
qed

lemma se_neg:
  assumes lt: "v < 2 ^ 24" and b: "bit (v::32 word) 23"
  shows "sint (v OR 0xff000000) = uint v - 2 ^ 24"
proof -
  have "v OR 0xff000000 = v + 0xff000000"
    using disjunctive_add_eq_or [OF se_disj [OF lt]] by simp
  also have "\<dots> = word_of_int (uint v - 2 ^ 24)"
    by simp
  finally have eq: "v OR 0xff000000 = word_of_int (uint v - 2 ^ 24)" .
  have lo: "2 ^ 23 \<le> uint v"
  proof (rule ccontr)
    assume "\<not> 2 ^ 23 \<le> uint v"
    then have "uint v div 2 ^ 23 = 0" by (simp add: div_pos_pos_trivial)
    then have "\<not> bit (uint v) 23" by (simp only: bit_iff_odd) simp
    with b show False by (simp add: bit_uint_iff)
  qed
  have up: "uint v < 2 ^ 24" using lt by (simp add: word_less_def)
  have "sint (word_of_int (uint v - 2 ^ 24) :: 32 word) = signed_take_bit 31 (uint v - 2 ^ 24)"
    by (rule trans [OF sint_sbintrunc']) simp
  also have "\<dots> = uint v - 2 ^ 24"
    using lo up by (intro signed_take_bit_int_eq_self) simp_all
  finally show ?thesis by (simp only: eq)
qed

lemma se_pos:
  assumes lt: "(v::32 word) < 2 ^ 24"
  shows "sint v = uint v"
proof -
  have up: "uint v < 2 ^ 24" using lt by (simp add: word_less_def)
  have lo: "- (2 ^ 31) \<le> uint v"
    by (rule order_trans [OF _ uint_ge_0]) simp
  have "sint v = signed_take_bit 31 (uint v)" by (simp add: sint_uint)
  also have "\<dots> = uint v" using up lo by (intro signed_take_bit_int_eq_self; simp)
  finally show ?thesis .
qed

text \<open>
  Claim C4. For every 24-bit pattern \<open>v\<close>: when bit 23 is set, the sign extension of
  \<open>readNB\<close> ors \<open>0xff000000\<close> in and the result, read as a signed 32-bit integer, is
  \<open>v - 2^24\<close>; when bit 23 is clear, the value is unchanged and not negative.
\<close>

theorem sign_extend_24bit:
  "v < 2 ^ 24 \<Longrightarrow>
     (bit v 23 \<longrightarrow> sign_extend v = (v OR 0xff000000) \<and> sint (sign_extend v) = uint v - 2 ^ 24) \<and>
     (\<not> bit v 23 \<longrightarrow> sign_extend v = v \<and> sint (sign_extend v) = uint v \<and> 0 \<le> sint (sign_extend v))"
  using se_neg [of v] se_pos [of v] by (simp add: sign_extend_def and_bit23)

theorem sign_extend_24bit_witness:
  "(0xFFFFFF :: 32 word) < 2 ^ 24 \<and> bit (0xFFFFFF :: 32 word) 23 \<and> sint (sign_extend 0xFFFFFF) = - 1
   \<and> (0x7FFFFF :: 32 word) < 2 ^ 24 \<and> \<not> bit (0x7FFFFF :: 32 word) 23 \<and> sint (sign_extend 0x7FFFFF) = 8388607"
proof -
  have a: "(0xFFFFFF :: 32 word) < 2 ^ 24" and b: "bit (0xFFFFFF :: 32 word) 23"
    and c: "(0x7FFFFF :: 32 word) < 2 ^ 24" and d: "\<not> bit (0x7FFFFF :: 32 word) 23"
    by (simp_all add: bit_iff_odd)
  from sign_extend_24bit [OF a] b have "sint (sign_extend 0xFFFFFF) = uint (0xFFFFFF :: 32 word) - 2 ^ 24"
    by blast
  moreover from sign_extend_24bit [OF c] d have "sint (sign_extend 0x7FFFFF) = uint (0x7FFFFF :: 32 word)"
    by blast
  ultimately show ?thesis using a b c d by simp
qed

section \<open>The protocol read\<close>

lemmas prim_defs = emit_def digitalWrite_def digitalRead_def delayMicroseconds_def
  attachInterrupt_def detachInterrupt_def noInterrupts_def interrupts_def yield_def

lemma extras_loop:
  "unat m = Suc n \<Longrightarrow>
     HX711ReadData_extras clk m s = s\<lparr>trace := trace s @ concat (replicate (Suc n) (plain_pulse clk))\<rparr>"
proof (induction n arbitrary: m s)
  case 0
  then have "unat m = unat (1 :: u8)" by simp
  then have "m = 1" by (simp only: word_unat_eq_iff)
  then show ?case
    by (subst HX711ReadData_extras.simps) (simp add: prim_defs plain_pulse_def)
next
  case (Suc n)
  then have nz: "m \<noteq> 0" by (auto simp: unat_eq_zero)
  then have u: "unat (m - 1) = Suc n" using Suc.prems by (simp add: unat_minus_one)
  have "m - 1 \<noteq> 0"
  proof
    assume "m - 1 = 0"
    then have "unat (m - 1) = 0" by simp
    with u show False by simp
  qed
  then have pos: "0 < m - 1" by (simp add: word_greater_zero_iff)
  show ?case
    apply (subst HX711ReadData_extras.simps)
    apply (simp add: pos Let_def Suc.IH [OF u])
    apply (simp add: prim_defs plain_pulse_def)
    done
qed

lemma bits_loop:
  "k < 32 \<Longrightarrow>
     HX711ReadData_bits clk data (2 ^ k) val s =
       (val OR shifted_in k (line s data),
        after_reads data (Suc k)
          (concat (map (\<lambda>i. sampled_pulse clk data (line s data i)) [0..<Suc k])) s)"
proof (induction k arbitrary: val s)
  case 0
  show ?case
    by (subst HX711ReadData_bits.simps)
       (simp add: prim_defs sampled_pulse_def after_reads_def Let_def)
next
  case (Suc k)
  then have k: "k < 32" by simp
  have d: "drop_bit 1 (2 ^ Suc k :: u32) = 2 ^ k"
    using Suc.prems by (simp only: drop_bit_exp_eq) (simp add: possible_bit_word)
  have pos: "(0 :: u32) < 2 ^ k"
    using k by (simp add: word_greater_zero_iff)
  have up: "[0..<Suc (Suc k)] = 0 # map Suc [0..<Suc k]"
    by (simp only: map_Suc_upt upt_conv_Cons [of 0 "Suc (Suc k)"])
  show ?case
    apply (subst HX711ReadData_bits.simps)
    apply (simp only: Let_def d pos if_True Suc.IH [OF k])
    apply (simp only: up)
    apply (simp add: prim_defs sampled_pulse_def after_reads_def o_def or.assoc Let_def del: upt_Suc)
    done
qed


lemma bit_shifted_in:
  "bit (shifted_in k f) j \<longleftrightarrow> j \<le> k \<and> j < 32 \<and> f (k - j) = HIGH"
proof (induction k arbitrary: f j)
  case 0
  show ?case by (auto simp: bit_simps)
next
  case (Suc k)
  show ?case
    by (auto simp: bit_simps Suc.IH Suc_diff_le le_Suc_eq simp del: power_Suc)
qed

lemma unat_shifted_in:
  "unat (shifted_in 23 f) = (\<Sum>i<24. if f i = HIGH then 2 ^ (23 - i) else 0)"
proof -
  let ?w = "shifted_in 23 f"
  let ?g = "\<lambda>i. if f i = HIGH then 2 ^ (23 - i) else (0::nat)"
  have "take_bit 24 ?w = ?w"
    by (rule bit_word_eqI) (auto simp: bit_simps bit_shifted_in)
  then have "unat ?w = take_bit 24 (unat ?w)"
    by (metis unsigned_take_bit_eq)
  also have "\<dots> = (\<Sum>k = 0..<24. push_bit k (of_bool (bit (unat ?w) k)))"
    by (rule take_bit_sum)
  also have "\<dots> = (\<Sum>k<24. ?g (24 - Suc k))"
    unfolding lessThan_atLeast0
    by (rule sum.cong) (auto simp: bit_unsigned_iff bit_shifted_in push_bit_eq_mult)
  also have "\<dots> = (\<Sum>i<24. ?g i)"
    by (rule sum.nat_diff_reindex)
  finally show ?thesis .
qed

lemma HX711ReadData_eq:
  assumes "0 < unat m"
  shows "HX711ReadData this m s =
     (shifted_in 23 (line s (pinDat (objs s this))),
      after_reads (pinDat (objs s this)) 24
        (read_cycle_events (pinClk (objs s this)) (pinDat (objs s this))
           (line s (pinDat (objs s this))) (unat m)) s)"
proof -
  obtain n where n: "unat m = Suc n"
    using assms by (cases "unat m") simp_all
  have c: "(0x800000 :: u32) = 2 ^ 23" by simp
  have b: "HX711ReadData_bits clk data 0x800000 0 s =
       (shifted_in 23 (line s data),
        after_reads data 24 (concat (map (\<lambda>i. sampled_pulse clk data (line s data i)) [0..<24])) s)"
    for clk data
    unfolding c using bits_loop [of 23 clk data 0 s] by simp
  show ?thesis
    by (simp add: HX711ReadData_def Let_def b extras_loop [OF n] n [symmetric]
        after_reads_def read_cycle_events_def)
qed

lemma clock_pulses_cycle:
  "clock_pulses clk (read_cycle_events clk data f n) = 24 + n"
proof -
  have a: "length (filter (\<lambda>e. e = DigitalWrite clk HIGH) (sampled_pulse clk data v)) = 1" for v
    by (simp add: sampled_pulse_def)
  have b: "length (filter (\<lambda>e. e = DigitalWrite clk HIGH) (plain_pulse clk)) = 1"
    by (simp add: plain_pulse_def)
  show ?thesis
    by (simp add: clock_pulses_def read_cycle_events_def filter_concat length_concat o_def a b
        sum_list_triv sum_list_replicate del: upt_Suc)
qed

lemma readNB_extras_range: "readNB_extras ob \<in> {1, 2, 3}"
  by (simp add: readNB_extras_def)

text \<open>
  Claim C1. For an extra-pulse count \<open>m\<close> of 1, 2 or 3, \<open>HX711ReadData\<close> makes exactly
  24 sampled clock pulses and then exactly \<open>m\<close> clock pulses without a sample, 25, 26 or
  27 rising clock edges in all, and returns the unsigned value in which the level sampled
  on pulse \<open>i\<close> contributes \<open>2^(23 - i)\<close>. The only caller, \<open>readNB\<close>, passes a count
  that is 1, 2 or 3 whatever the state of the object.
\<close>

theorem HX711ReadData_protocol:
  "m \<in> {1, 2, 3} \<Longrightarrow>
     (let clk = pinClk (objs s this); data = pinDat (objs s this);
          r = HX711ReadData this m s;
          new = read_cycle_events clk data (line s data) (unat m)
      in trace (snd r) = trace s @ new
         \<and> new = concat (map (\<lambda>i. sampled_pulse clk data (line s data i)) [0..<24]) @
                 concat (replicate (unat m) (plain_pulse clk))
         \<and> clock_pulses clk new = 24 + unat m
         \<and> clock_pulses clk new \<in> {25, 26, 27}
         \<and> unat (fst r) = (\<Sum>i<24. if line s data i = HIGH then 2 ^ (23 - i) else 0))
     \<and> (\<forall>ob. readNB_extras ob \<in> {1, 2, 3})"
proof -
  assume m: "m \<in> {1, 2, 3}"
  let ?clk = "pinClk (objs s this)" and ?data = "pinDat (objs s this)"
  let ?new = "read_cycle_events ?clk ?data (line s ?data) (unat m)"
  from m have pos: "0 < unat m" by auto
  from m have "unat m \<in> {1, 2, 3}" by auto
  then have rng: "24 + unat m \<in> {25, 26, 27}" by auto
  have t: "trace (snd (HX711ReadData this m s)) = trace s @ ?new"
    by (simp add: HX711ReadData_eq [OF pos] after_reads_def)
  have v: "unat (fst (HX711ReadData this m s)) =
      (\<Sum>i<24. if line s ?data i = HIGH then 2 ^ (23 - i) else 0)"
    by (simp add: HX711ReadData_eq [OF pos] unat_shifted_in)
  have e: "?new = concat (map (\<lambda>i. sampled_pulse ?clk ?data (line s ?data i)) [0..<24]) @
      concat (replicate (unat m) (plain_pulse ?clk))"
    by (simp only: read_cycle_events_def)
  have c: "clock_pulses ?clk ?new = 24 + unat m"
    by (rule clock_pulses_cycle)
  have c': "clock_pulses ?clk ?new \<in> {25, 26, 27}"
    using rng by (simp only: c)
  show ?thesis
    unfolding Let_def using t v e c c' readNB_extras_range by blast
qed

lemma alternating_sum:
  "(\<Sum>i<24. if (if even i then HIGH else LOW) = HIGH then 2 ^ (23 - i) else 0) = (11184810::nat)"
proof -
  let ?g = "\<lambda>i. if (if even i then HIGH else LOW) = HIGH then 2 ^ (23 - i) else (0::nat)"
  have "{..<24::nat} = set [0..<24]"
    by auto
  then have "(\<Sum>i<24. ?g i) = sum_list (map ?g [0..<24])"
    by (simp add: sum_list_distinct_conv_sum_set del: upt_Suc)
  also have "\<dots> = 11184810"
    by (simp add: upt_rec)
  finally show ?thesis .
qed

theorem HX711ReadData_protocol_witness:
  "(2 :: u8) \<in> {1, 2, 3}
   \<and> unat (fst (HX711ReadData 0 2 example_system)) = 11184810
   \<and> clock_pulses 10 (trace (snd (HX711ReadData 0 2 example_system))) = 26"
proof -
  have m: "(2 :: u8) \<in> {1, 2, 3}"
    by simp
  have p: "pinClk (objs example_system 0) = 10" "pinDat (objs example_system 0) = 0"
    "trace example_system = []" "line example_system 0 = (\<lambda>n. if even n then HIGH else LOW)"
    by (simp_all add: example_system_def example_obj_def)
  have u: "unat (2 :: u8) = 2"
    by simp
  note h = HX711ReadData_protocol [OF m, of example_system 0, unfolded Let_def p u]
  from h have "unat (fst (HX711ReadData 0 2 example_system)) = 11184810"
    by (simp only: alternating_sum)
  moreover have "clock_pulses 10 (trace (snd (HX711ReadData 0 2 example_system))) = 26"
  proof -
    let ?new = "read_cycle_events 10 0 (\<lambda>n. if even n then HIGH else LOW) 2"
    from h have "trace (snd (HX711ReadData 0 2 example_system)) = [] @ ?new"
      and "clock_pulses 10 ?new = 24 + 2"
      by blast+
    then show ?thesis
      by simp
  qed
  ultimately show ?thesis
    using m by blast
qed

section \<open>The non-blocking read\<close>

lemma readNB_extras_pos: "0 < unat (readNB_extras ob)"
  by (simp add: readNB_extras_def)

lemma readNB_eq:
  "readNB this s =
     (let ob = objs s this;
          ob1 = (if enableB ob then ob\<lparr>nextReadA := \<not> nextReadA ob\<rparr> else ob);
          clk = pinClk ob; dat = pinDat ob
      in s\<lparr>trace := trace s @ NoInterrupts #
              read_cycle_events clk dat (line s dat) (unat (readNB_extras ob1)) @ [Interrupts],
            line := (line s)(dat := (\<lambda>i. line s dat (i + 24))),
            objs := (objs s)(this := readNB_obj ob (shifted_in 23 (line s dat)))\<rparr>)"
proof -
  have a: "readNB_extras (ob\<lparr>inISR := b\<rparr>) = readNB_extras ob" for ob b
    by (simp add: readNB_extras_def)
  have b: "read_channel (ob\<lparr>inISR := b\<rparr>) = read_channel ob" for ob b
    by (simp add: read_channel_def)
  show ?thesis
    by (simp add: readNB_def Let_def upd_def HX711ReadData_eq readNB_extras_pos after_reads_def
        noInterrupts_def interrupts_def emit_def readNB_obj_def readNB_extras_def read_channel_def)
qed

lemma example_obj0:
  "pinClk (example_obj 0) = 10" "pinDat (example_obj 0) = 0" "\<not> enableB (example_obj 0)"
  "nextReadA (example_obj 0)" "mode (example_obj 0) = GAIN_128" "myISRId (example_obj 0) = UINT8_MAX"
  by (simp_all add: example_obj_def)

lemma example_fields:
  "objs example_system = example_obj" "trace example_system = []"
  "line example_system = (\<lambda>p n. if even n then HIGH else LOW)"
  "ISRUsed example_system = 0"
  by (simp_all add: example_system_def)

lemma readNB_objs_this:
  "objs (readNB this s) this =
     readNB_obj (objs s this) (shifted_in 23 (line s (pinDat (objs s this))))"
  by (simp add: readNB_eq Let_def)

lemma readNB_objs_other:
  "a \<noteq> this \<Longrightarrow> objs (readNB this s) a = objs s a"
  by (simp add: readNB_eq Let_def)

lemma readNB_trace:
  "trace (readNB this s) =
     trace s @ NoInterrupts #
       read_cycle_events (pinClk (objs s this)) (pinDat (objs s this))
         (line s (pinDat (objs s this)))
         (unat (readNB_extras (if enableB (objs s this)
                               then (objs s this)\<lparr>nextReadA := \<not> nextReadA (objs s this)\<rparr>
                               else objs s this))) @ [Interrupts]"
  by (simp add: readNB_eq Let_def)

lemma readNB_globals:
  "ISRUsed (readNB this s) = ISRUsed s" "myInstance (readNB this s) = myInstance s"
  "pin2irq (readNB this s) = pin2irq s"
  by (simp_all add: readNB_eq Let_def)

lemma HX711ReadData_value:
  "0 < unat m \<Longrightarrow> fst (HX711ReadData this m s) = shifted_in 23 (line s (pinDat (objs s this)))"
  by (simp add: HX711ReadData_eq)

lemma readNB_obj_B:
  assumes "enableB ob"
  shows "enableB (readNB_obj ob v)" "nextReadA (readNB_obj ob v) = (\<not> nextReadA ob)"
    "mode (readNB_obj ob v) = mode ob"
    "read_channel (readNB_obj ob v) = (if nextReadA ob then CH_A else CH_B)"
    "chanData (readNB_obj ob v) =
       (chanData ob)((if nextReadA ob then CH_A else CH_B) :=
          (chanData ob (if nextReadA ob then CH_A else CH_B))\<lparr>raw := sign_extend v\<rparr>)"
  using assms by (simp_all add: readNB_obj_def read_channel_def Let_def)

lemma readNB_obj_noB:
  assumes "\<not> enableB ob"
  shows "\<not> enableB (readNB_obj ob v)" "nextReadA (readNB_obj ob v) = nextReadA ob"
    "mode (readNB_obj ob v) = mode ob"
    "read_channel (readNB_obj ob v) = CH_A"
    "chanData (readNB_obj ob v) = (chanData ob)(CH_A := (chanData ob CH_A)\<lparr>raw := sign_extend v\<rparr>)"
  using assms by (simp_all add: readNB_obj_def read_channel_def Let_def)

lemma readNB_obj_pins:
  "pinClk (readNB_obj ob v) = pinClk ob" "pinDat (readNB_obj ob v) = pinDat ob"
  "myISRId (readNB_obj ob v) = myISRId ob" "readCounter (readNB_obj ob v) = readCounter ob + 1"
  "\<not> inISR (readNB_obj ob v)"
  by (simp_all add: readNB_obj_def Let_def)

lemma readNB_iter_B:
  "enableB (objs s this) \<Longrightarrow>
     enableB (objs ((readNB this ^^ n) s) this) \<and>
     nextReadA (objs ((readNB this ^^ n) s) this) = (even n = nextReadA (objs s this))"
  by (induction n) (auto simp: readNB_objs_this readNB_obj_B)

text \<open>
  Claim C2. With Channel B enabled, the channel a call of \<open>readNB\<close> services (the
  record it stores to, which \<open>read\<close> reports) is A when the next-channel flag was set
  and B otherwise, the following call services the other channel, and so the calls
  alternate A, B, A, B, ... from the state \<open>reset\<close> leaves. The call asks for 2 extra
  pulses when the channel of the following call is B, and for 1 (gain 128) or 3 (gain 64)
  when it is A. The value read, sign-extended, is stored in the record of the serviced
  channel; the other record is untouched.
\<close>

theorem readNB_alternates:
  assumes "enableB (objs s this)"
  shows "let ob = objs s this; s1 = readNB this s; s2 = readNB this s1;
             ch1 = read_channel (objs s1 this); ch2 = read_channel (objs s2 this);
             k = (if ch2 = CH_B then 2 else if mode ob = GAIN_128 then 1 else 3)
         in enableB (objs s1 this)
            \<and> ch1 = (if nextReadA ob then CH_A else CH_B)
            \<and> ch2 \<noteq> ch1
            \<and> trace s1 = trace s @ NoInterrupts #
                 read_cycle_events (pinClk ob) (pinDat ob) (line s (pinDat ob)) (unat k) @ [Interrupts]
            \<and> chanData (objs s1 this) =
                 (chanData ob)(ch1 := (chanData ob ch1)\<lparr>raw := sign_extend (fst (HX711ReadData this k s))\<rparr>)
            \<and> (\<forall>n. read_channel (objs ((readNB this ^^ Suc n) s) this) =
                     (if even n = nextReadA ob then CH_A else CH_B))"
proof -
  let ?ob = "objs s this"
  let ?s1 = "readNB this s"
  let ?v = "shifted_in 23 (line s (pinDat ?ob))"
  let ?ch1 = "if nextReadA ?ob then CH_A else CH_B"
  let ?ch2 = "if nextReadA ?ob then CH_B else CH_A"
  let ?k = "if ?ch2 = CH_B then 2 else if mode ?ob = GAIN_128 then 1 else (3::u8)"
  have o1: "objs ?s1 this = readNB_obj ?ob ?v"
    by (rule readNB_objs_this)
  have e1: "enableB (objs ?s1 this)"
    by (simp add: o1 readNB_obj_B assms)
  have c1: "read_channel (objs ?s1 this) = ?ch1"
    by (simp add: o1 readNB_obj_B assms)
  have c2: "read_channel (objs (readNB this ?s1) this) = ?ch2"
    using e1 by (simp add: readNB_objs_this [of this ?s1] readNB_obj_B) (simp add: o1 readNB_obj_B assms)
  have k: "readNB_extras (?ob\<lparr>nextReadA := \<not> nextReadA ?ob\<rparr>) = ?k"
    by (simp add: readNB_extras_def)
  have t: "trace ?s1 = trace s @ NoInterrupts #
      read_cycle_events (pinClk ?ob) (pinDat ?ob) (line s (pinDat ?ob)) (unat ?k) @ [Interrupts]"
    using assms by (simp only: readNB_trace if_True k)
  have pos: "0 < unat ?k"
    by simp
  have d: "chanData (objs ?s1 this) =
      (chanData ?ob)(?ch1 := (chanData ?ob ?ch1)\<lparr>raw := sign_extend (fst (HX711ReadData this ?k s))\<rparr>)"
    by (simp only: o1 readNB_obj_B(5) [OF assms] HX711ReadData_value [OF pos])
  have it: "read_channel (objs ((readNB this ^^ Suc n) s) this) =
      (if even n = nextReadA ?ob then CH_A else CH_B)" for n
    using readNB_iter_B [OF assms, of "Suc n"] by (auto simp: read_channel_def)
  have ne: "?ch2 \<noteq> ?ch1"
    by simp
  show ?thesis
    unfolding Let_def c1 c2 using e1 ne t d it by blast
qed

theorem readNB_alternates_witness:
  "enableB (objs (enableChannelB 0 True example_system) 0)
   \<and> read_channel (objs (readNB 0 (enableChannelB 0 True example_system)) 0) = CH_A
   \<and> read_channel (objs (readNB 0 (readNB 0 (enableChannelB 0 True example_system))) 0) = CH_B
   \<and> trace (readNB 0 (enableChannelB 0 True example_system)) =
       NoInterrupts # read_cycle_events 10 0 (\<lambda>n. if even n then HIGH else LOW) 2 @ [Interrupts]"
proof -
  let ?s = "enableChannelB 0 True example_system"
  have e: "enableB (objs ?s 0)"
    by (simp add: enableChannelB_def upd_def)
  have f: "nextReadA (objs ?s 0)" "pinClk (objs ?s 0) = 10" "pinDat (objs ?s 0) = 0"
    "trace ?s = []" "line ?s 0 = (\<lambda>n. if even n then HIGH else LOW)"
    by (simp_all add: enableChannelB_def upd_def example_fields example_obj0)
  note h = readNB_alternates [OF e, unfolded Let_def]
  from h f(1) have c1: "read_channel (objs (readNB 0 ?s) 0) = CH_A"
    by simp
  from h have "read_channel (objs (readNB 0 (readNB 0 ?s)) 0) \<noteq>
      read_channel (objs (readNB 0 ?s) 0)"
    by blast
  then have "read_channel (objs (readNB 0 (readNB 0 ?s)) 0) \<noteq> CH_A"
    by (simp add: c1)
  then have c2: "read_channel (objs (readNB 0 (readNB 0 ?s)) 0) = CH_B"
    using channel_t.exhaust by blast
  from h have "trace (readNB 0 ?s) =
       NoInterrupts # read_cycle_events 10 0 (\<lambda>n. if even n then HIGH else LOW) 2 @ [Interrupts]"
    unfolding c2 f by simp
  with e c1 c2 show ?thesis by blast
qed

section \<open>The blocking read\<close>

lemma clock_pulses_readNB:
  "clock_pulses clk (NoInterrupts # read_cycle_events clk data f n @ [Interrupts]) = 24 + n"
  using clock_pulses_cycle [of clk data f n] by (simp add: clock_pulses_def)

lemma readNB_iter_noB:
  "\<not> enableB (objs s this) \<Longrightarrow>
     \<not> enableB (objs ((readNB this ^^ n) s) this) \<and>
     nextReadA (objs ((readNB this ^^ n) s) this) = nextReadA (objs s this) \<and>
     mode (objs ((readNB this ^^ n) s) this) = mode (objs s this) \<and>
     chanData (objs ((readNB this ^^ n) s) this) CH_B = chanData (objs s this) CH_B"
  by (induction n) (auto simp: readNB_objs_this readNB_obj_noB)

lemma readNB_noB:
  assumes "\<not> enableB (objs s this)"
  shows "trace (readNB this s) = trace s @ NoInterrupts #
      read_cycle_events (pinClk (objs s this)) (pinDat (objs s this)) (line s (pinDat (objs s this)))
        (unat (readNB_extras (objs s this))) @ [Interrupts]"
    and "chanData (objs (readNB this s) this) =
      (chanData (objs s this))(CH_A := (chanData (objs s this) CH_A)
         \<lparr>raw := sign_extend (fst (HX711ReadData this (readNB_extras (objs s this)) s))\<rparr>)"
    and "read_channel (objs (readNB this s) this) = CH_A"
    and "\<not> enableB (objs (readNB this s) this)"
    and "nextReadA (objs (readNB this s) this) = nextReadA (objs s this)"
proof -
  show "trace (readNB this s) = trace s @ NoInterrupts #
      read_cycle_events (pinClk (objs s this)) (pinDat (objs s this)) (line s (pinDat (objs s this)))
        (unat (readNB_extras (objs s this))) @ [Interrupts]"
    using assms by (simp only: readNB_trace if_False)
  show "chanData (objs (readNB this s) this) =
      (chanData (objs s this))(CH_A := (chanData (objs s this) CH_A)
         \<lparr>raw := sign_extend (fst (HX711ReadData this (readNB_extras (objs s this)) s))\<rparr>)"
    by (simp only: readNB_objs_this readNB_obj_noB(5) [OF assms]
        HX711ReadData_value [OF readNB_extras_pos])
  show "read_channel (objs (readNB this s) this) = CH_A"
    "\<not> enableB (objs (readNB this s) this)"
    "nextReadA (objs (readNB this s) this) = nextReadA (objs s this)"
    using assms by (simp_all add: readNB_objs_this readNB_obj_noB)
qed

lemma read_wait_objs:
  assumes "read_wait this s = Some s1"
  shows "objs s1 = objs s"
proof (rule read_wait.raw_induct [where P = "\<lambda>this s s1. objs s1 = objs s", OF _ assms])
  fix rw :: "addr \<Rightarrow> system \<Rightarrow> system option" and this s s1
  assume IH: "\<And>this s s1. rw this s = Some s1 \<Longrightarrow> objs s1 = objs s"
    and eq: "(let r = isReady this s
              in if \<not> fst r then rw this (yield (snd r)) else Some (snd r)) = Some s1"
  show "objs s1 = objs s"
  proof (cases "line s (pinDat (objs s this)) 0 = LOW")
    case True
    with eq show ?thesis
      by (auto simp: isReady_def digitalRead_def Let_def emit_def)
  next
    case False
    with eq have "rw this (yield (snd (isReady this s))) = Some s1"
      by (simp add: isReady_def digitalRead_def Let_def emit_def)
    then have "objs s1 = objs (yield (snd (isReady this s)))"
      by (rule IH)
    then show ?thesis
      by (simp add: isReady_def digitalRead_def Let_def emit_def yield_def)
  qed
qed

lemma read_wait_terminates:
  "line s (pinDat (objs s this)) k = LOW \<Longrightarrow> \<exists>s1. read_wait this s = Some s1"
proof (induction k arbitrary: s)
  case 0
  then show ?case
    by (subst read_wait.simps) (simp add: isReady_def digitalRead_def Let_def)
next
  case (Suc k)
  let ?s' = "yield (snd (isReady this s))"
  have "line ?s' (pinDat (objs ?s' this)) k = LOW"
    using Suc.prems by (simp add: isReady_def digitalRead_def Let_def emit_def yield_def)
  then obtain s1 where "read_wait this ?s' = Some s1"
    using Suc.IH by blast
  then show ?case
    by (subst read_wait.simps) (simp add: Let_def)
qed

lemma read_result:
  assumes "read this s = Some (ch, s')"
  shows "isInterruptMode this s \<and> s' = s \<or>
         (\<exists>s1. objs s1 = objs s \<and> s' = readNB this s1)"
proof (cases "isInterruptMode this s")
  case True
  with assms show ?thesis by (simp add: read_def)
next
  case False
  with assms obtain s1 where w: "read_wait this s = Some s1" and s': "s' = readNB this s1"
    by (auto simp: read_def split: bind_splits)
  from w have "objs s1 = objs s" by (rule read_wait_objs)
  with s' show ?thesis by blast
qed

lemma read_channel_result:
  "read this s = Some (ch, s') \<Longrightarrow> ch = read_channel (objs s' this)"
  by (auto simp: read_def split: bind_splits if_splits)

lemma read_terminates:
  assumes "isInterruptMode this s \<or> (\<exists>k. line s (pinDat (objs s this)) k = LOW)"
  shows "\<exists>ch s'. read this s = Some (ch, s')"
proof (cases "isInterruptMode this s")
  case True
  then show ?thesis by (simp add: read_def)
next
  case False
  with assms obtain k where "line s (pinDat (objs s this)) k = LOW" by blast
  then obtain s1 where "read_wait this s = Some s1"
    using read_wait_terminates by blast
  with False show ?thesis by (simp add: read_def)
qed

section \<open>Reset and detach\<close>

lemma disableISR_wait_inISR:
  assumes "disableISR_wait this s = Some s1"
  shows "\<not> inISR (objs s this)"
proof (rule disableISR_wait.raw_induct [where P = "\<lambda>this s s1. \<not> inISR (objs s this)", OF _ assms])
  fix dw :: "addr \<Rightarrow> system \<Rightarrow> system option" and this s s1
  assume IH: "\<And>this s s1. dw this s = Some s1 \<Longrightarrow> \<not> inISR (objs s this)"
    and eq: "(if inISR (objs s this) then dw this (yield s) else Some s) = Some s1"
  show "\<not> inISR (objs s this)"
  proof
    assume i: "inISR (objs s this)"
    with eq have "dw this (yield s) = Some s1" by simp
    then have "\<not> inISR (objs (yield s) this)" by (rule IH)
    with i show False by (simp add: yield_def emit_def)
  qed
qed

lemma disableISR_wait_eq:
  "disableISR_wait this s = (if inISR (objs s this) then None else Some s)"
proof (cases "inISR (objs s this)")
  case True
  then have "disableISR_wait this s = None"
    using disableISR_wait_inISR [of this s] by (cases "disableISR_wait this s") auto
  with True show ?thesis by simp
next
  case False
  then show ?thesis by (subst disableISR_wait.simps) simp
qed

lemma disableISR_eq:
  "disableISR this s =
     (if isInterruptMode this s then
        (if inISR (objs s this) then None
         else Some (s\<lparr>trace := trace s @
                       [NoInterrupts, DetachInterrupt (pin2irq s (pinDat (objs s this))), Interrupts],
                     ISRUsed := ISRUsed s AND NOT (BV (myISRId (objs s this))),
                     objs := (objs s)(this := (objs s this)\<lparr>myISRId := UINT8_MAX, inISR := False\<rparr>)\<rparr>))
      else Some (s\<lparr>objs := (objs s)(this := (objs s this)\<lparr>myISRId := UINT8_MAX, inISR := False\<rparr>)\<rparr>))"
  by (simp add: disableISR_def disableISR_wait_eq Let_def upd_def prim_defs)

lemma reset_chans_eq:
  "reset_chans 0 this s =
     s\<lparr>objs := (objs s)(this := (objs s this)
         \<lparr>chanData := (\<lambda>ch. (chanData (objs s this) ch)\<lparr>raw := 0, tare := 0, calib := 0, rangeV := float_zero\<rparr>)\<rparr>)\<rparr>"
proof -
  have f: "(\<lambda>ch. (c ch)\<lparr>raw := 0, tare := 0, calib := 0, rangeV := float_zero\<rparr>) =
      (c(CH_A := (c CH_A)\<lparr>raw := 0, tare := 0, calib := 0, rangeV := float_zero\<rparr>))
       (CH_B := (c CH_B)\<lparr>raw := 0, tare := 0, calib := 0, rangeV := float_zero\<rparr>)"
    for c :: "channel_t \<Rightarrow> channelInfo_t"
  proof
    fix ch show "(c ch)\<lparr>raw := 0, tare := 0, calib := 0, rangeV := float_zero\<rparr> =
      ((c(CH_A := (c CH_A)\<lparr>raw := 0, tare := 0, calib := 0, rangeV := float_zero\<rparr>))
       (CH_B := (c CH_B)\<lparr>raw := 0, tare := 0, calib := 0, rangeV := float_zero\<rparr>)) ch"
      by (cases ch) simp_all
  qed
  show ?thesis
    by (simp add: reset_chans.simps [of 0] reset_chans.simps [of 1] reset_chans.simps [of 2]
        NUM_CHAN_def channel_of_def upd_def f)
qed

lemma reset_eq:
  "reset this s =
     (if isInterruptMode this s \<and> inISR (objs s this) then None
      else Some (s\<lparr>trace := trace s @
                     [DigitalWrite (pinClk (objs s this)) HIGH, DelayMicroseconds 64,
                      DigitalWrite (pinClk (objs s this)) LOW] @
                     (if isInterruptMode this s
                      then [NoInterrupts, DetachInterrupt (pin2irq s (pinDat (objs s this))), Interrupts]
                      else []),
                  ISRUsed := (if isInterruptMode this s
                              then ISRUsed s AND NOT (BV (myISRId (objs s this)))
                              else ISRUsed s),
                  objs := (objs s)(this := reset_obj (objs s this))\<rparr>))"
  by (simp add: reset_def disableISR_eq reset_chans_eq Let_def upd_def prim_defs
      powerDown_def powerUp_def enableChannelB_def setGainA_def isInterruptMode_def reset_obj_def)

section \<open>Reads with Channel B disabled\<close>

lemma reset_flags:
  "reset this s0 = Some s' \<Longrightarrow> \<not> enableB (objs s' this) \<and> nextReadA (objs s' this)"
  by (auto simp: reset_eq reset_obj_def split: if_splits)

text \<open>
  Claim C3. In a state with Channel B disabled and the next-channel flag on A, as
  \<open>reset\<close> leaves it, a read services Channel A, asks for 1 extra pulse at gain 128 and
  3 at gain 64 (25 or 27 clock pulses, never 26), and leaves the record of Channel B
  untouched. The state is preserved by every read and by \<open>setGainA\<close>, so all of this
  holds for every later read while Channel B stays disabled.
\<close>

theorem channelB_never_serviced:
  assumes "\<not> enableB (objs s this)" and "nextReadA (objs s this)"
  shows "let ob = objs s this; s1 = readNB this s;
             k = (if mode ob = GAIN_128 then 1 else 3)
         in read_channel (objs s1 this) = CH_A
            \<and> trace s1 = trace s @ NoInterrupts #
                 read_cycle_events (pinClk ob) (pinDat ob) (line s (pinDat ob)) (unat k) @ [Interrupts]
            \<and> clock_pulses (pinClk ob) (drop (length (trace s)) (trace s1)) \<in> {25, 27}
            \<and> chanData (objs s1 this) =
                 (chanData ob)(CH_A := (chanData ob CH_A)\<lparr>raw := sign_extend (fst (HX711ReadData this k s))\<rparr>)
            \<and> chanData (objs s1 this) CH_B = chanData ob CH_B
            \<and> \<not> enableB (objs s1 this) \<and> nextReadA (objs s1 this)
            \<and> (\<forall>g. \<not> enableB (objs (setGainA this g s) this) \<and> nextReadA (objs (setGainA this g s) this))
            \<and> (\<forall>n. \<not> enableB (objs ((readNB this ^^ n) s) this)
                    \<and> nextReadA (objs ((readNB this ^^ n) s) this)
                    \<and> chanData (objs ((readNB this ^^ n) s) this) CH_B = chanData ob CH_B)
            \<and> (\<forall>s0 s'. reset this s0 = Some s' \<longrightarrow>
                    \<not> enableB (objs s' this) \<and> nextReadA (objs s' this))"
proof -
  let ?ob = "objs s this"
  let ?s1 = "readNB this s"
  let ?k = "if mode ?ob = GAIN_128 then 1 else (3::u8)"
  let ?new = "NoInterrupts #
      read_cycle_events (pinClk ?ob) (pinDat ?ob) (line s (pinDat ?ob)) (unat ?k) @ [Interrupts]"
  have k: "readNB_extras ?ob = ?k"
    using assms(2) by (simp add: readNB_extras_def)
  note r = readNB_noB [OF assms(1), unfolded k]
  have t: "trace ?s1 = trace s @ ?new"
    by (rule r(1))
  have "clock_pulses (pinClk ?ob) ?new = 24 + unat ?k"
    by (rule clock_pulses_readNB)
  then have c: "clock_pulses (pinClk ?ob) (drop (length (trace s)) (trace ?s1)) \<in> {25, 27}"
    by (simp add: t)
  have b: "chanData (objs ?s1 this) CH_B = chanData ?ob CH_B"
    by (simp add: r(2))
  have g: "\<not> enableB (objs (setGainA this g s) this) \<and> nextReadA (objs (setGainA this g s) this)" for g
    using assms by (simp add: setGainA_def upd_def)
  have it: "\<not> enableB (objs ((readNB this ^^ n) s) this)
      \<and> nextReadA (objs ((readNB this ^^ n) s) this)
      \<and> chanData (objs ((readNB this ^^ n) s) this) CH_B = chanData ?ob CH_B" for n
    using readNB_iter_noB [OF assms(1), of n] assms(2) by simp
  show ?thesis
    unfolding Let_def using r(3) t c r(2) b r(4) r(5) assms(2) g it reset_flags by blast
qed

theorem channelB_never_serviced_witness:
  "\<not> enableB (objs example_system 0) \<and> nextReadA (objs example_system 0)
   \<and> read_channel (objs (readNB 0 example_system) 0) = CH_A
   \<and> trace (readNB 0 example_system) =
       NoInterrupts # read_cycle_events 10 0 (\<lambda>n. if even n then HIGH else LOW) 1 @ [Interrupts]
   \<and> chanData (objs (readNB 0 example_system) 0) CH_B = chanData (objs example_system 0) CH_B"
proof -
  have e: "\<not> enableB (objs example_system 0)" and a: "nextReadA (objs example_system 0)"
    by (simp_all add: example_fields example_obj0)
  have f: "mode (objs example_system 0) = GAIN_128" "pinClk (objs example_system 0) = 10"
    "pinDat (objs example_system 0) = 0" "trace example_system = []"
    "line example_system 0 = (\<lambda>n. if even n then HIGH else LOW)"
    by (simp_all add: example_fields example_obj0)
  note h = channelB_never_serviced [OF e a, unfolded Let_def]
  from h have c: "read_channel (objs (readNB 0 example_system) 0) = CH_A"
    by blast
  from h have "trace (readNB 0 example_system) = trace example_system @ NoInterrupts #
      read_cycle_events (pinClk (objs example_system 0)) (pinDat (objs example_system 0))
        (line example_system (pinDat (objs example_system 0)))
        (unat (if mode (objs example_system 0) = GAIN_128 then 1 else (3::u8))) @ [Interrupts]"
    by blast
  then have t: "trace (readNB 0 example_system) =
       NoInterrupts # read_cycle_events 10 0 (\<lambda>n. if even n then HIGH else LOW) 1 @ [Interrupts]"
    by (simp add: f)
  from h have b: "chanData (objs (readNB 0 example_system) 0) CH_B = chanData (objs example_system 0) CH_B"
    by blast
  from e a c t b show ?thesis by blast
qed

lemma enable_read_disable:
  assumes "nextReadA (objs s0 this)" and "odd n"
  shows "\<not> enableB (objs (enableChannelB this False ((readNB this ^^ n) (enableChannelB this True s0))) this)"
    and "\<not> nextReadA (objs (enableChannelB this False ((readNB this ^^ n) (enableChannelB this True s0))) this)"
proof -
  let ?s = "enableChannelB this True s0"
  have e: "enableB (objs ?s this)" and a: "nextReadA (objs ?s this)"
    using assms(1) by (simp_all add: enableChannelB_def upd_def)
  from readNB_iter_B [OF e, of n] a assms(2)
  have "\<not> nextReadA (objs ((readNB this ^^ n) ?s) this)"
    by simp
  then show "\<not> nextReadA (objs (enableChannelB this False ((readNB this ^^ n) ?s)) this)"
    by (simp add: enableChannelB_def upd_def)
  show "\<not> enableB (objs (enableChannelB this False ((readNB this ^^ n) ?s)) this)"
    by (simp add: enableChannelB_def upd_def)
qed

text \<open>
  Claim C10, as the code has it. Enable Channel B in a state whose next-channel flag is
  on A, read an odd number of times, disable Channel B: the flag is left on B. From then on every
  \<open>readNB\<close> leaves the flag on B, asks for 2 extra clock pulses, stores the
  sign-extended value in the record of Channel A, and \<open>read\<close> reports Channel A; it
  returns whenever the data line shows \<open>LOW\<close> at some time or interrupt mode is on.
\<close>

theorem channelB_disabled_mid_rotation:
  assumes "nextReadA (objs s0 this)" and "odd n"
    and "s = enableChannelB this False ((readNB this ^^ n) (enableChannelB this True s0))"
  shows "\<not> enableB (objs s this) \<and> \<not> nextReadA (objs s this) \<and>
         (\<forall>m. let sm = (readNB this ^^ m) s; ob = objs sm this; s1 = readNB this sm
              in \<not> nextReadA (objs s1 this)
                 \<and> trace s1 = trace sm @ NoInterrupts #
                      read_cycle_events (pinClk ob) (pinDat ob) (line sm (pinDat ob)) 2 @ [Interrupts]
                 \<and> chanData (objs s1 this) =
                      (chanData ob)(CH_A := (chanData ob CH_A)
                         \<lparr>raw := sign_extend (fst (HX711ReadData this 2 sm))\<rparr>)
                 \<and> read_channel (objs s1 this) = CH_A
                 \<and> (\<forall>ch s'. read this sm = Some (ch, s') \<longrightarrow> ch = CH_A \<and> \<not> nextReadA (objs s' this))
                 \<and> (isInterruptMode this sm \<or> (\<exists>k. line sm (pinDat ob) k = LOW) \<longrightarrow>
                      (\<exists>s'. read this sm = Some (CH_A, s'))))"
proof -
  have e: "\<not> enableB (objs s this)" and a: "\<not> nextReadA (objs s this)"
    unfolding assms(3) using enable_read_disable [OF assms(1,2)] by blast+
  have step: "let sm = (readNB this ^^ m) s; ob = objs sm this; s1 = readNB this sm
      in \<not> nextReadA (objs s1 this)
         \<and> trace s1 = trace sm @ NoInterrupts #
              read_cycle_events (pinClk ob) (pinDat ob) (line sm (pinDat ob)) 2 @ [Interrupts]
         \<and> chanData (objs s1 this) =
              (chanData ob)(CH_A := (chanData ob CH_A)\<lparr>raw := sign_extend (fst (HX711ReadData this 2 sm))\<rparr>)
         \<and> read_channel (objs s1 this) = CH_A
         \<and> (\<forall>ch s'. read this sm = Some (ch, s') \<longrightarrow> ch = CH_A \<and> \<not> nextReadA (objs s' this))
         \<and> (isInterruptMode this sm \<or> (\<exists>k. line sm (pinDat ob) k = LOW) \<longrightarrow>
              (\<exists>s'. read this sm = Some (CH_A, s')))" for m
  proof -
    let ?sm = "(readNB this ^^ m) s"
    let ?ob = "objs ?sm this"
    from readNB_iter_noB [OF e, of m] a
    have em: "\<not> enableB ?ob" and am: "\<not> nextReadA ?ob"
      by simp_all
    have k: "readNB_extras ?ob = 2"
      using am by (simp add: readNB_extras_def)
    note r = readNB_noB [OF em, unfolded k]
    have u: "unat (2 :: u8) = 2" by simp
    have rd: "ch = CH_A \<and> \<not> nextReadA (objs s' this)" if h: "read this ?sm = Some (ch, s')" for ch s'
    proof -
      from read_result [OF h] have "\<not> enableB (objs s' this) \<and> \<not> nextReadA (objs s' this)"
      proof
        assume "isInterruptMode this ?sm \<and> s' = ?sm"
        with em am show ?thesis by simp
      next
        assume "\<exists>s1. objs s1 = objs ?sm \<and> s' = readNB this s1"
        then obtain s1 where o: "objs s1 = objs ?sm" and s': "s' = readNB this s1" by blast
        from em am o have "\<not> enableB (objs s1 this)" "\<not> nextReadA (objs s1 this)" by simp_all
        then show ?thesis
          unfolding s' by (simp add: readNB_objs_this readNB_obj_noB)
      qed
      with read_channel_result [OF h] show ?thesis
        by (simp add: read_channel_def)
    qed
    have tm: "\<exists>s'. read this ?sm = Some (CH_A, s')"
      if "isInterruptMode this ?sm \<or> (\<exists>k. line ?sm (pinDat ?ob) k = LOW)"
    proof -
      from read_terminates [OF that] obtain ch s' where h: "read this ?sm = Some (ch, s')" by blast
      with rd have "ch = CH_A" by blast
      with h show ?thesis by blast
    qed
    from r(5) am have n1: "\<not> nextReadA (objs (readNB this ?sm) this)" by simp
    show ?thesis
      unfolding Let_def using n1 r(1) [unfolded u] r(2) r(3) rd tm by blast
  qed
  from e a step show ?thesis by blast
qed

theorem channelB_disabled_mid_rotation_witness:
  "nextReadA (objs example_system 0) \<and> odd (Suc 0)
   \<and> \<not> nextReadA (objs (enableChannelB 0 False
          ((readNB 0 ^^ Suc 0) (enableChannelB 0 True example_system))) 0)
   \<and> read_channel (objs (readNB 0 (enableChannelB 0 False
          ((readNB 0 ^^ Suc 0) (enableChannelB 0 True example_system)))) 0) = CH_A
   \<and> map_option fst (read 0 (enableChannelB 0 False
          ((readNB 0 ^^ Suc 0) (enableChannelB 0 True example_system)))) = Some CH_A"
proof -
  let ?s = "enableChannelB 0 False ((readNB 0 ^^ Suc 0) (enableChannelB 0 True example_system))"
  have a: "nextReadA (objs example_system 0)"
    by (simp add: example_fields example_obj0)
  have o: "odd (Suc 0)"
    by simp
  note h = channelB_disabled_mid_rotation [OF a o refl]
  from h have n: "\<not> nextReadA (objs ?s 0)"
    by blast
  from h have m0: "let sm = (readNB 0 ^^ 0) ?s; ob = objs sm 0; s1 = readNB 0 sm
      in \<not> nextReadA (objs s1 0)
         \<and> trace s1 = trace sm @ NoInterrupts #
              read_cycle_events (pinClk ob) (pinDat ob) (line sm (pinDat ob)) 2 @ [Interrupts]
         \<and> chanData (objs s1 0) =
              (chanData ob)(CH_A := (chanData ob CH_A)\<lparr>raw := sign_extend (fst (HX711ReadData 0 2 sm))\<rparr>)
         \<and> read_channel (objs s1 0) = CH_A
         \<and> (\<forall>ch s'. read 0 sm = Some (ch, s') \<longrightarrow> ch = CH_A \<and> \<not> nextReadA (objs s' 0))
         \<and> (isInterruptMode 0 sm \<or> (\<exists>k. line sm (pinDat ob) k = LOW) \<longrightarrow>
              (\<exists>s'. read 0 sm = Some (CH_A, s')))"
    by blast
  have l: "line ?s (pinDat (objs ?s 0)) 1 = LOW"
    by (simp add: enableChannelB_def upd_def readNB_eq Let_def example_fields example_obj0)
  from m0 have c: "read_channel (objs (readNB 0 ?s) 0) = CH_A"
    by (simp add: Let_def)
  from m0 l have "\<exists>s'. read 0 ?s = Some (CH_A, s')"
    unfolding Let_def funpow_0 by blast
  then have "map_option fst (read 0 ?s) = Some CH_A"
    by auto
  with a o n c show ?thesis by blast
qed

lemma enableChannelB_obj:
  "objs (enableChannelB this b s) this = (objs s this)\<lparr>enableB := b\<rparr>"
  "trace (enableChannelB this b s) = trace s" "line (enableChannelB this b s) = line s"
  by (simp_all add: enableChannelB_def upd_def)

lemma toggle_flags:
  assumes "s' = enableChannelB this False ((readNB this ^^ Suc 0) (enableChannelB this True s))"
  shows "\<not> enableB (objs s' this)" "nextReadA (objs s' this) = (\<not> nextReadA (objs s this))"
    "mode (objs s' this) = mode (objs s this)" "pinClk (objs s' this) = pinClk (objs s this)"
    "pinDat (objs s' this) = pinDat (objs s this)"
  unfolding assms
  by (simp_all add: enableChannelB_obj readNB_objs_this readNB_obj_B readNB_obj_pins)

text \<open>
  Claim C10 as stated, for every start: enable Channel B while the next-channel flag is
  on B, read once, disable Channel B. The flag is then on A, the next \<open>readNB\<close> leaves
  it on A and asks for 1 extra clock pulse (25 pulses), not 2.
\<close>

theorem channelB_flag_counterexample:
  "\<not> enableB (objs example_flag_back_on_A 0)
   \<and> nextReadA (objs example_flag_back_on_A 0)
   \<and> nextReadA (objs (readNB 0 example_flag_back_on_A) 0)
   \<and> trace (readNB 0 example_flag_back_on_A) =
       trace example_flag_back_on_A @ NoInterrupts #
         read_cycle_events 10 0 (line example_flag_back_on_A 0) 1 @ [Interrupts]
   \<and> clock_pulses 10 (drop (length (trace example_flag_back_on_A))
         (trace (readNB 0 example_flag_back_on_A))) = 25"
proof -
  let ?X = "example_flag_back_on_A"
  note b = toggle_flags [OF example_flag_on_B_def]
  note a = toggle_flags [OF example_flag_back_on_A_def]
  have e: "\<not> enableB (objs ?X 0)"
    by (rule a(1))
  have n: "nextReadA (objs ?X 0)"
    by (simp add: a(2) b(2) example_fields example_obj0)
  have f: "mode (objs ?X 0) = GAIN_128" "pinClk (objs ?X 0) = 10" "pinDat (objs ?X 0) = 0"
    by (simp_all add: a b example_fields example_obj0)
  have k: "readNB_extras (objs ?X 0) = 1"
    using n f(1) by (simp add: readNB_extras_def)
  note r = readNB_noB [OF e, unfolded k f]
  have n': "nextReadA (objs (readNB 0 ?X) 0)"
    using r(5) n by simp
  have t: "trace (readNB 0 ?X) =
      trace ?X @ NoInterrupts # read_cycle_events 10 0 (line ?X 0) 1 @ [Interrupts]"
    using r(1) by simp
  have "clock_pulses 10 (NoInterrupts # read_cycle_events 10 0 (line ?X 0) 1 @ [Interrupts]) = 24 + 1"
    by (rule clock_pulses_readNB)
  then have c: "clock_pulses 10 (drop (length (trace ?X)) (trace (readNB 0 ?X))) = 25"
    by (simp add: t)
  from e n n' t c show ?thesis by blast
qed

section \<open>The interrupt registry\<close>

lemma BV_test: "unat i < 8 \<Longrightarrow> (w AND BV i = 0) = (\<not> bit w (unat i))"
  by (simp add: BV_def push_bit_of_1 and_exp_eq_0_iff_not_bit)

lemma alloc_unroll:
  "enableISR_alloc 0 this s =
     (let take = (\<lambda>i. s\<lparr>objs := (objs s)(this := (objs s this)\<lparr>myISRId := i\<rparr>),
                         myInstance := (myInstance s)(i := Some this),
                         ISRUsed := ISRUsed s OR BV i\<rparr>)
      in if \<not> bit (ISRUsed s) 0 then take 0
         else if \<not> bit (ISRUsed s) 1 then take 1
         else if \<not> bit (ISRUsed s) 2 then take 2
         else if \<not> bit (ISRUsed s) 3 then take 3
         else s)"
proof -
  have b: "(ISRUsed s AND BV 0 = 0) = (\<not> bit (ISRUsed s) 0)"
    "(ISRUsed s AND BV 1 = 0) = (\<not> bit (ISRUsed s) 1)"
    "(ISRUsed s AND BV 2 = 0) = (\<not> bit (ISRUsed s) 2)"
    "(ISRUsed s AND BV 3 = 0) = (\<not> bit (ISRUsed s) 3)"
    using BV_test [of 0 "ISRUsed s"] BV_test [of 1 "ISRUsed s"]
      BV_test [of 2 "ISRUsed s"] BV_test [of 3 "ISRUsed s"]
    by simp_all
  show ?thesis
    by (simp add: enableISR_alloc.simps [of 0] enableISR_alloc.simps [of 1]
        enableISR_alloc.simps [of 2] enableISR_alloc.simps [of 3] enableISR_alloc.simps [of 4]
        MAX_INSTANCE_def Let_def upd_def b del: bit_0)
qed

lemma enableISR_eq:
  "enableISR this s =
     (if isInterruptMode this s \<or> pin2irq s (pinDat (objs s this)) = NOT_AN_INTERRUPT
      then (False, s)
      else if \<not> bit (ISRUsed s) 0 then (True, attached 0 this s)
      else if \<not> bit (ISRUsed s) 1 then (True, attached 1 this s)
      else if \<not> bit (ISRUsed s) 2 then (True, attached 2 this s)
      else if \<not> bit (ISRUsed s) 3 then (True, attached 3 this s)
      else (False, s))"
  by (simp add: enableISR_def alloc_unroll Let_def attached_def isInterruptMode_def UINT8_MAX_def
      prim_defs powerDown_def powerUp_def del: bit_0)

lemma less4_cases: "(i::nat) < 4 \<Longrightarrow> i = 0 \<or> i = 1 \<or> i = 2 \<or> i = 3"
  by arith

lemma isr_slot: "i < 4 \<Longrightarrow> slot_of (ISRfunc ! i) = of_nat i"
  by (drule less4_cases) (auto simp: ISRfunc_def slot_of_def)

lemma attached_fields:
  "myISRId (objs (attached i this s) this) = i"
  "myInstance (attached i this s) i = Some this"
  "ISRUsed (attached i this s) = ISRUsed s OR BV i"
  "trace (attached i this s) = trace s @
          [AttachInterrupt (pin2irq s (pinDat (objs s this))) (ISRfunc ! unat i) LOW,
           DigitalWrite (pinClk (objs s this)) HIGH, DelayMicroseconds 64,
           DigitalWrite (pinClk (objs s this)) LOW]"
  "\<And>j. j \<noteq> i \<Longrightarrow> myInstance (attached i this s) j = myInstance s j"
  "\<And>a. a \<noteq> this \<Longrightarrow> objs (attached i this s) a = objs s a"
  "line (attached i this s) = line s" "pin2irq (attached i this s) = pin2irq s"
  by (simp_all add: attached_def)

lemma bit_or_BV: "i < 8 \<Longrightarrow> bit (w OR BV (of_nat i)) i"
  by (simp add: BV_def bit_simps unat_of_nat)

lemma enableISR_success:
  assumes "enableISR this s = (True, s')"
  shows "\<exists>i<4. \<not> bit (ISRUsed s) i \<and> (\<forall>j<i. bit (ISRUsed s) j)
             \<and> s' = attached (of_nat i) this s"
proof -
  have lt: "(j < (2::nat)) = (j = 0 \<or> j = 1)" "(j < (3::nat)) = (j = 0 \<or> j = 1 \<or> j = 2)" for j
    by arith+
  from assms consider
      "\<not> bit (ISRUsed s) 0" "s' = attached 0 this s"
    | "bit (ISRUsed s) 0" "\<not> bit (ISRUsed s) 1" "s' = attached 1 this s"
    | "bit (ISRUsed s) 0" "bit (ISRUsed s) 1" "\<not> bit (ISRUsed s) 2" "s' = attached 2 this s"
    | "bit (ISRUsed s) 0" "bit (ISRUsed s) 1" "bit (ISRUsed s) 2" "\<not> bit (ISRUsed s) 3"
      "s' = attached 3 this s"
    by (auto simp: enableISR_eq simp del: bit_0 split: if_splits)
  then show ?thesis
  proof cases
    case 1
    then show ?thesis by (intro exI [of _ 0]) (simp del: bit_0)
  next
    case 2
    then show ?thesis by (intro exI [of _ 1]) (simp del: bit_0)
  next
    case 3
    then show ?thesis by (intro exI [of _ 2]) (auto simp: lt simp del: bit_0)
  next
    case 4
    then show ?thesis by (intro exI [of _ 3]) (auto simp: lt simp del: bit_0)
  qed
qed

lemma enableISR_fails_iff:
  "\<not> fst (enableISR this s) \<longleftrightarrow>
     isInterruptMode this s \<or> pin2irq s (pinDat (objs s this)) = NOT_AN_INTERRUPT \<or>
     (\<forall>i<4. bit (ISRUsed s) i)"
proof -
  have all4: "(\<forall>i<4. bit (ISRUsed s) i) =
      (bit (ISRUsed s) 0 \<and> bit (ISRUsed s) 1 \<and> bit (ISRUsed s) 2 \<and> bit (ISRUsed s) 3)"
  proof
    assume "\<forall>i<4. bit (ISRUsed s) i"
    then show "bit (ISRUsed s) 0 \<and> bit (ISRUsed s) 1 \<and> bit (ISRUsed s) 2 \<and> bit (ISRUsed s) 3"
      by (simp del: bit_0)
  next
    assume a: "bit (ISRUsed s) 0 \<and> bit (ISRUsed s) 1 \<and> bit (ISRUsed s) 2 \<and> bit (ISRUsed s) 3"
    show "\<forall>i<4. bit (ISRUsed s) i"
    proof (intro allI impI)
      fix i :: nat assume "i < 4"
      then have "i = 0 \<or> i = 1 \<or> i = 2 \<or> i = 3" by (rule less4_cases)
      with a show "bit (ISRUsed s) i" by (auto simp del: bit_0)
    qed
  qed
  show ?thesis
    unfolding all4 by (simp add: enableISR_eq del: bit_0)
qed

lemma enableISR_fail_unchanged:
  "\<not> fst (enableISR this s) \<Longrightarrow> snd (enableISR this s) = s"
  by (auto simp: enableISR_eq simp del: bit_0 split: if_splits)

lemma globalISR_attached:
  "i < 4 \<Longrightarrow> globalISR (ISRfunc ! i) (attached (of_nat i) this s) =
     Some (readNB this (attached (of_nat i) this s))"
  by (simp add: globalISR_def isr_slot attached_fields)

text \<open>
  Claim C5, as the code has it. When \<open>enableInterruptMode(true)\<close> returns true, the
  object has been recorded at the lowest free slot \<open>i\<close> of the four, the bit \<open>i\<close> of
  \<open>ISRUsed\<close> is set, the other slots and objects are untouched, \<open>attachInterrupt\<close> has
  been called for the interrupt of the data pin with the trampoline of slot \<open>i\<close>, which
  runs \<open>readNB\<close> of this object, and with the trigger mode \<open>LOW\<close>, and after that the
  device has been powered down and up.
\<close>

theorem attach_success:
  "enableInterruptMode this True s = Some (True, s') \<Longrightarrow>
     (\<exists>i<4. \<not> bit (ISRUsed s) i \<and> (\<forall>j<i. bit (ISRUsed s) j)
        \<and> myISRId (objs s' this) = of_nat i
        \<and> myInstance s' (of_nat i) = Some this
        \<and> (\<forall>j. j \<noteq> of_nat i \<longrightarrow> myInstance s' j = myInstance s j)
        \<and> (\<forall>a. a \<noteq> this \<longrightarrow> objs s' a = objs s a)
        \<and> ISRUsed s' = ISRUsed s OR BV (of_nat i) \<and> bit (ISRUsed s') i
        \<and> trace s' = trace s @
             [AttachInterrupt (pin2irq s (pinDat (objs s this))) (ISRfunc ! i) LOW,
              DigitalWrite (pinClk (objs s this)) HIGH, DelayMicroseconds 64,
              DigitalWrite (pinClk (objs s this)) LOW]
        \<and> slot_of (ISRfunc ! i) = of_nat i
        \<and> globalISR (ISRfunc ! i) s' = Some (readNB this s'))"
proof -
  assume "enableInterruptMode this True s = Some (True, s')"
  then have "enableISR this s = (True, s')"
    by (simp add: enableInterruptMode_def)
  then obtain i where i: "i < 4" and free: "\<not> bit (ISRUsed s) i"
    and low: "\<forall>j<i. bit (ISRUsed s) j" and s': "s' = attached (of_nat i) this s"
    using enableISR_success by blast
  from i have u: "unat (of_nat i :: u8) = i"
    by (simp add: unat_of_nat)
  from i have b: "bit (ISRUsed s OR BV (of_nat i)) i"
    by (intro bit_or_BV) simp
  show ?thesis
    using i free low b isr_slot [OF i] globalISR_attached [OF i, of this s]
    by (intro exI [of _ i]) (simp add: s' attached_fields u)
qed

theorem attach_success_witness:
  "enableInterruptMode 0 True example_system =
     Some (True, example_system
       \<lparr>trace := [AttachInterrupt 0 GlobalISR0 LOW, DigitalWrite 10 HIGH, DelayMicroseconds 64,
                  DigitalWrite 10 LOW],
        ISRUsed := 1, myInstance := (\<lambda>i. None)(0 := Some 0),
        objs := example_obj(0 := (example_obj 0)\<lparr>myISRId := 0\<rparr>)\<rparr>)
   \<and> myISRId (objs (snd (enableISR 0 example_system)) 0) = 0
   \<and> myInstance (snd (enableISR 0 example_system)) 0 = Some 0
   \<and> ISRUsed (snd (enableISR 0 example_system)) = 1"
proof -
  let ?s' = "example_system
       \<lparr>trace := [AttachInterrupt 0 GlobalISR0 LOW, DigitalWrite 10 HIGH, DelayMicroseconds 64,
                  DigitalWrite 10 LOW],
        ISRUsed := 1, myInstance := (\<lambda>i. None)(0 := Some 0),
        objs := example_obj(0 := (example_obj 0)\<lparr>myISRId := 0\<rparr>)\<rparr>"
  have e: "enableISR 0 example_system = (True, ?s')"
    by (simp add: enableISR_eq attached_def example_fields example_obj0 isInterruptMode_def
        example_system_def NOT_AN_INTERRUPT_def ISRfunc_def BV_def)
  then have h: "enableInterruptMode 0 True example_system = Some (True, ?s')"
    by (simp add: enableInterruptMode_def)
  from attach_success [OF h] obtain i where "i < 4" "\<not> bit (ISRUsed example_system) i"
    "\<forall>j<i. bit (ISRUsed example_system) j" "myISRId (objs ?s' 0) = of_nat i"
    "myInstance ?s' (of_nat i) = Some 0" "ISRUsed ?s' = ISRUsed example_system OR BV (of_nat i)"
    by blast
  then have "myISRId (objs ?s' 0) = 0 \<and> myInstance ?s' 0 = Some 0 \<and> ISRUsed ?s' = 1"
    by simp
  with h e show ?thesis by simp
qed

text \<open>
  Claim C5 as stated asks for a registration on the falling edge. The first attach in
  the example system succeeds and registers with the mode \<open>LOW\<close>; no call with the mode
  \<open>FALLING\<close> is made.
\<close>

theorem attach_trigger_counterexample:
  "map_option fst (enableInterruptMode 0 True example_system) = Some True
   \<and> map_option (trace \<circ> snd) (enableInterruptMode 0 True example_system) =
       Some [AttachInterrupt 0 GlobalISR0 LOW, DigitalWrite 10 HIGH, DelayMicroseconds 64,
             DigitalWrite 10 LOW]
   \<and> AttachInterrupt 0 GlobalISR0 FALLING \<notin>
       set [AttachInterrupt 0 GlobalISR0 LOW, DigitalWrite 10 HIGH, DelayMicroseconds 64,
            DigitalWrite 10 LOW]"
  by (simp add: enableInterruptMode_def enableISR_eq attached_def example_fields example_obj0
      isInterruptMode_def example_system_def NOT_AN_INTERRUPT_def ISRfunc_def)

text \<open>
  Claim C6. \<open>enableInterruptMode(true)\<close> returns false exactly when the object is
  already attached, or its data pin has no interrupt, or all four slots are taken; it then
  leaves the whole system as it was (every object, \<open>myInstance\<close>, \<open>ISRUsed\<close>, and no
  platform call is made), while a successful call does make platform calls. In
  particular, with four slots taken a further attach fails and changes nothing.
\<close>

theorem attach_failure:
  "\<exists>b s'. enableInterruptMode this True s = Some (b, s')
     \<and> (\<not> b \<longleftrightarrow> isInterruptMode this s
                 \<or> pin2irq s (pinDat (objs s this)) = NOT_AN_INTERRUPT
                 \<or> (\<forall>i<4. bit (ISRUsed s) i))
     \<and> (\<not> b \<longrightarrow> s' = s)
     \<and> (b \<longrightarrow> trace s' \<noteq> trace s)
     \<and> ((\<forall>i<4. bit (ISRUsed s) i) \<longrightarrow> enableInterruptMode this True s = Some (False, s))"
proof -
  let ?r = "enableISR this s"
  have e: "enableInterruptMode this True s = Some (fst ?r, snd ?r)"
    by (simp add: enableInterruptMode_def)
  have f: "\<not> fst ?r \<longleftrightarrow> isInterruptMode this s
      \<or> pin2irq s (pinDat (objs s this)) = NOT_AN_INTERRUPT \<or> (\<forall>i<4. bit (ISRUsed s) i)"
    by (rule enableISR_fails_iff)
  have u: "\<not> fst ?r \<longrightarrow> snd ?r = s"
    using enableISR_fail_unchanged by blast
  have c: "fst ?r \<longrightarrow> trace (snd ?r) \<noteq> trace s"
  proof
    assume "fst ?r"
    then have "enableISR this s = (True, snd ?r)"
      by (simp add: prod_eq_iff)
    then obtain i where "snd ?r = attached i this s"
      using enableISR_success by blast
    then show "trace (snd ?r) \<noteq> trace s"
      by (simp add: attached_fields)
  qed
  have g: "(\<forall>i<4. bit (ISRUsed s) i) \<longrightarrow> enableInterruptMode this True s = Some (False, s)"
  proof
    assume "\<forall>i<4. bit (ISRUsed s) i"
    with f have n: "\<not> fst ?r" by blast
    with u have "snd ?r = s" by blast
    with n e show "enableInterruptMode this True s = Some (False, s)" by simp
  qed
  from e f u c g show ?thesis by blast
qed

lemma example_attached4_eq:
  "example_attached4 = example_system
     \<lparr>trace := [AttachInterrupt 0 GlobalISR0 LOW, DigitalWrite 10 HIGH, DelayMicroseconds 64,
                DigitalWrite 10 LOW,
                AttachInterrupt 1 GlobalISR1 LOW, DigitalWrite 11 HIGH, DelayMicroseconds 64,
                DigitalWrite 11 LOW,
                AttachInterrupt 2 GlobalISR2 LOW, DigitalWrite 12 HIGH, DelayMicroseconds 64,
                DigitalWrite 12 LOW,
                AttachInterrupt 3 GlobalISR3 LOW, DigitalWrite 13 HIGH, DelayMicroseconds 64,
                DigitalWrite 13 LOW],
      ISRUsed := 15,
      myInstance := (\<lambda>i. None)(0 := Some 0, 1 := Some 1, 2 := Some 2, 3 := Some 3),
      objs := example_obj(0 := (example_obj 0)\<lparr>myISRId := 0\<rparr>, 1 := (example_obj 1)\<lparr>myISRId := 1\<rparr>,
                          2 := (example_obj 2)\<lparr>myISRId := 2\<rparr>, 3 := (example_obj 3)\<lparr>myISRId := 3\<rparr>)\<rparr>"
  by (simp add: example_attached4_def enableISR_eq attached_def example_obj_def
      isInterruptMode_def example_system_def NOT_AN_INTERRUPT_def ISRfunc_def BV_def UINT8_MAX_def
      del: bit_0)

theorem attach_failure_witness:
  "ISRUsed example_attached4 = 15
   \<and> enableInterruptMode 4 True example_attached4 = Some (False, example_attached4)
   \<and> myISRId (objs example_attached4 0) = 0 \<and> myISRId (objs example_attached4 1) = 1
   \<and> myISRId (objs example_attached4 2) = 2 \<and> myISRId (objs example_attached4 3) = 3
   \<and> myInstance example_attached4 3 = Some 3"
proof -
  have u: "ISRUsed example_attached4 = 15"
    by (simp add: example_attached4_eq)
  have full: "\<forall>i<4. bit (ISRUsed example_attached4) i"
  proof (intro allI impI)
    fix i :: nat assume "i < 4"
    then have "i = 0 \<or> i = 1 \<or> i = 2 \<or> i = 3" by (rule less4_cases)
    then show "bit (ISRUsed example_attached4) i"
      unfolding u by (auto simp: bit_iff_odd)
  qed
  from attach_failure [of 4 example_attached4] full
  have "enableInterruptMode 4 True example_attached4 = Some (False, example_attached4)"
    by blast
  with u show ?thesis
    by (simp add: example_attached4_eq)
qed

section \<open>Reset\<close>

lemma bit_cleared: "\<not> bit (w AND NOT (BV i)) (unat i)"
  by (auto simp: BV_def bit_simps dest: bit_imp_possible_bit)

text \<open>
  Claim C7. \<open>reset\<close> returns unless interrupt mode is on while the in-handler flag is
  set (then it waits for the handler). Whenever it returns, Channel B is disabled, the
  gain is \<open>GAIN_128\<close>, the next channel is A, the read counter is 0, raw, tare, calib and
  range of both channels are zero, and interrupt mode is off: the slot assignment is
  \<open>UINT8_MAX\<close> and, if a slot was held, its bit of \<open>ISRUsed\<close> is cleared. Nothing else
  of the registry and no other object changes.
\<close>

theorem reset_defaults:
  "(\<not> (isInterruptMode this s \<and> inISR (objs s this)) \<longrightarrow> (\<exists>s'. reset this s = Some s'))
   \<and> (\<forall>s'. reset this s = Some s' \<longrightarrow>
        (let ob' = objs s' this
         in \<not> enableB ob' \<and> mode ob' = GAIN_128 \<and> nextReadA ob' \<and> readCounter ob' = 0
            \<and> (\<forall>ch. raw (chanData ob' ch) = 0 \<and> tare (chanData ob' ch) = 0
                    \<and> calib (chanData ob' ch) = 0 \<and> rangeV (chanData ob' ch) = float_zero)
            \<and> myISRId ob' = UINT8_MAX \<and> \<not> isInterruptMode this s' \<and> \<not> inISR ob'
            \<and> (isInterruptMode this s \<longrightarrow>
                  ISRUsed s' = ISRUsed s AND NOT (BV (myISRId (objs s this)))
                  \<and> \<not> bit (ISRUsed s') (unat (myISRId (objs s this))))
            \<and> (\<not> isInterruptMode this s \<longrightarrow> ISRUsed s' = ISRUsed s)
            \<and> myInstance s' = myInstance s
            \<and> (\<forall>a. a \<noteq> this \<longrightarrow> objs s' a = objs s a)))"
proof (intro conjI allI impI)
  assume "\<not> (isInterruptMode this s \<and> inISR (objs s this))"
  then show "\<exists>s'. reset this s = Some s'"
    by (simp add: reset_eq)
next
  fix s'
  assume r: "reset this s = Some s'"
  then have o: "objs s' this = reset_obj (objs s this)"
    and u: "ISRUsed s' = (if isInterruptMode this s
                          then ISRUsed s AND NOT (BV (myISRId (objs s this))) else ISRUsed s)"
    and m: "myInstance s' = myInstance s"
    and a: "\<And>a. a \<noteq> this \<Longrightarrow> objs s' a = objs s a"
    by (auto simp: reset_eq split: if_splits)
  show "let ob' = objs s' this
         in \<not> enableB ob' \<and> mode ob' = GAIN_128 \<and> nextReadA ob' \<and> readCounter ob' = 0
            \<and> (\<forall>ch. raw (chanData ob' ch) = 0 \<and> tare (chanData ob' ch) = 0
                    \<and> calib (chanData ob' ch) = 0 \<and> rangeV (chanData ob' ch) = float_zero)
            \<and> myISRId ob' = UINT8_MAX \<and> \<not> isInterruptMode this s' \<and> \<not> inISR ob'
            \<and> (isInterruptMode this s \<longrightarrow>
                  ISRUsed s' = ISRUsed s AND NOT (BV (myISRId (objs s this)))
                  \<and> \<not> bit (ISRUsed s') (unat (myISRId (objs s this))))
            \<and> (\<not> isInterruptMode this s \<longrightarrow> ISRUsed s' = ISRUsed s)
            \<and> myInstance s' = myInstance s
            \<and> (\<forall>a. a \<noteq> this \<longrightarrow> objs s' a = objs s a)"
    using a by (simp add: Let_def o u m reset_obj_def isInterruptMode_def bit_cleared)
qed

theorem reset_defaults_witness:
  "isInterruptMode 2 example_attached4 \<and> \<not> inISR (objs example_attached4 2)
   \<and> map_option ISRUsed (reset 2 example_attached4) = Some 11
   \<and> map_option (\<lambda>s. myISRId (objs s 2)) (reset 2 example_attached4) = Some UINT8_MAX
   \<and> map_option (\<lambda>s. nextReadA (objs s 2)) (reset 2 example_attached4) = Some True
   \<and> map_option (\<lambda>s. raw (chanData (objs s 2) CH_B)) (reset 2 example_attached4) = Some 0"
proof -
  have i: "isInterruptMode 2 example_attached4" and n: "\<not> inISR (objs example_attached4 2)"
    and id: "myISRId (objs example_attached4 2) = 2" and u: "ISRUsed example_attached4 = 15"
    by (simp_all add: example_attached4_eq isInterruptMode_def UINT8_MAX_def example_obj_def)
  note h = reset_defaults [of 2 example_attached4, unfolded Let_def]
  from h n obtain s' where r: "reset 2 example_attached4 = Some s'"
    by blast
  with h i have "ISRUsed s' = ISRUsed example_attached4 AND NOT (BV (myISRId (objs example_attached4 2)))"
    and "myISRId (objs s' 2) = UINT8_MAX" and "nextReadA (objs s' 2)"
    and "raw (chanData (objs s' 2) CH_B) = 0"
    by blast+
  then show ?thesis
    using i n by (simp add: r id u BV_def)
qed

section \<open>Tared values\<close>

text \<open>
  Claim C9, as the code has it. \<open>getTared\<close> subtracts in \<open>int32_t\<close>: the result is the
  exact difference of raw and tare whenever that difference is a 32-bit signed value.
\<close>

theorem getTared_exact_in_range:
  assumes "- (2 ^ 31) \<le> sint (getRaw this ch s) - sint (getZeroTare this ch s)"
    and "sint (getRaw this ch s) - sint (getZeroTare this ch s) < 2 ^ 31"
  shows "sint (getTared this ch s) = sint (getRaw this ch s) - sint (getZeroTare this ch s)"
proof -
  have "sint (getTared this ch s) =
      signed_take_bit (LENGTH(32) - 1) (sint (getRaw this ch s) - sint (getZeroTare this ch s))"
    unfolding getTared_def getRaw_def getZeroTare_def by (rule sint_word_ariths)
  also have "\<dots> = sint (getRaw this ch s) - sint (getZeroTare this ch s)"
    using assms by (intro signed_take_bit_int_eq_self) simp_all
  finally show ?thesis .
qed

theorem getTared_exact_in_range_witness:
  "sint (getTared 0 CH_A (setZeroTare 0 (- 5) CH_A example_system)) = 5
   \<and> sint (getRaw 0 CH_A (setZeroTare 0 (- 5) CH_A example_system)) = 0
   \<and> sint (getZeroTare 0 CH_A (setZeroTare 0 (- 5) CH_A example_system)) = - 5"
proof -
  let ?s = "setZeroTare 0 (- 5) CH_A example_system"
  have r: "sint (getRaw 0 CH_A ?s) = 0" and t: "sint (getZeroTare 0 CH_A ?s) = - 5"
    by (simp_all add: getRaw_def getZeroTare_def setZeroTare_def upd_def example_fields example_obj_def)
  have "sint (getTared 0 CH_A ?s) = sint (getRaw 0 CH_A ?s) - sint (getZeroTare 0 CH_A ?s)"
    by (rule getTared_exact_in_range) (simp_all add: r t)
  with r t show ?thesis by simp
qed

text \<open>
  Claim C9 as stated, for arbitrary stored values: with raw 0 and the tare set to
  \<open>-2^31\<close> the difference is \<open>2^31\<close>, which no \<open>int32_t\<close> result can be.
\<close>

theorem getTared_overflow_counterexample:
  "sint (getRaw 0 CH_A (setZeroTare 0 (- 2147483648) CH_A example_system)) = 0
   \<and> sint (getZeroTare 0 CH_A (setZeroTare 0 (- 2147483648) CH_A example_system)) = - 2147483648
   \<and> sint (getTared 0 CH_A (setZeroTare 0 (- 2147483648) CH_A example_system)) = - 2147483648
   \<and> sint (getTared 0 CH_A (setZeroTare 0 (- 2147483648) CH_A example_system)) \<noteq>
       sint (getRaw 0 CH_A (setZeroTare 0 (- 2147483648) CH_A example_system))
       - sint (getZeroTare 0 CH_A (setZeroTare 0 (- 2147483648) CH_A example_system))"
  by (simp add: getTared_def getRaw_def getZeroTare_def setZeroTare_def upd_def example_fields
      example_obj_def)

section \<open>Calibrated values\<close>

lemma pow2_powi: "pow2 e = 2 powi e"
  by (simp add: pow2_def power_int_def power_one_over)

lemma pow2_pos: "0 < pow2 e"
  by (simp add: pow2_powi)

lemma pow2_mono: "a \<le> b \<Longrightarrow> pow2 a \<le> pow2 b"
  by (simp add: pow2_powi power_int_increasing)

lemma pow2_Suc: "pow2 (e + 1) = 2 * pow2 e"
  by (simp add: pow2_powi power_int_add)

lemma pow2_nat: "pow2 (int n) = 2 ^ n"
  by (simp add: pow2_def)

lemma exp_up_range: "0 \<le> exp_up k q \<and> exp_up k q \<le> int k"
  by (induction k q rule: exp_up.induct) auto

lemma exp_up_lower: "1 \<le> q \<Longrightarrow> pow2 (exp_up k q) \<le> q"
proof (induction k q rule: exp_up.induct)
  case (1 q)
  then show ?case by (simp add: pow2_def)
next
  case (2 k q)
  show ?case
  proof (cases "2 \<le> q")
    case True
    then have "1 \<le> q / 2" by simp
    with 2 True have "pow2 (exp_up k (q / 2)) \<le> q / 2" by simp
    then show ?thesis using True by (simp add: pow2_Suc)
  next
    case False
    with 2 show ?thesis by (simp add: pow2_def)
  qed
qed

lemma exp_up_upper: "q < pow2 (int k + 1) \<Longrightarrow> q < pow2 (exp_up k q + 1)"
proof (induction k q rule: exp_up.induct)
  case (1 q)
  then show ?case by simp
next
  case (2 k q)
  show ?case
  proof (cases "2 \<le> q")
    case True
    from 2(2) have "q < 2 * pow2 (int k + 1)"
      by (simp add: pow2_Suc [symmetric] add.commute)
    then have "q / 2 < pow2 (int k + 1)" by simp
    with 2(1) True have "q / 2 < pow2 (exp_up k (q / 2) + 1)" by simp
    then have "q < 2 * pow2 (exp_up k (q / 2) + 1)" by simp
    also have "\<dots> = pow2 ((exp_up k (q / 2) + 1) + 1)" by (simp only: pow2_Suc)
    finally show ?thesis using True by simp
  next
    case False
    then show ?thesis by (simp add: pow2_def)
  qed
qed

lemma exp_down_range: "exp_down k q \<le> 0"
  by (induction k q rule: exp_down.induct) auto

lemma binexp_le: "binexp q \<le> 128"
  using exp_up_range [of 128 q] exp_down_range [of 126 q] by (simp add: binexp_def)

lemma rhe_cases: "round_half_even x = \<lfloor>x\<rfloor> \<or> round_half_even x = \<lfloor>x\<rfloor> + 1"
  by (simp add: round_half_even_def Let_def)

lemma rhe_upper: "of_int (round_half_even x) \<le> x + 1"
proof -
  have f: "rat_of_int \<lfloor>x\<rfloor> \<le> x" by (rule of_int_floor_le)
  from rhe_cases [of x] show ?thesis
  proof
    assume "round_half_even x = \<lfloor>x\<rfloor>"
    with f show ?thesis by linarith
  next
    assume "round_half_even x = \<lfloor>x\<rfloor> + 1"
    with f show ?thesis by simp
  qed
qed

lemma rhe_lower: "\<lfloor>x\<rfloor> \<le> round_half_even x"
  using rhe_cases [of x] by auto

lemma rhe_int: "round_half_even (of_int m) = m"
  by (simp add: round_half_even_def Let_def)

lemma round32_not_NaN: "round32 sg q \<noteq> NaN"
  by (simp add: round32_def Let_def)

lemma round32_finite:
  assumes "0 \<le> q" and "q \<le> pow2 127"
  shows "\<exists>v. round32 sg q = Finite sg v \<and> 0 \<le> v \<and> v \<le> q + pow2 105"
proof -
  let ?ulp = "pow2 (binexp q - 23)"
  let ?v = "of_int (round_half_even (q / ?ulp)) * ?ulp"
  have up: "0 < ?ulp" by (rule pow2_pos)
  have "?ulp \<le> pow2 105"
    using binexp_le [of q] by (intro pow2_mono) simp
  moreover have "?v \<le> (q / ?ulp + 1) * ?ulp"
    using up rhe_upper [of "q / ?ulp"] by (simp add: mult_right_mono)
  then have "?v \<le> q + ?ulp"
    using up by (simp add: algebra_simps)
  ultimately have le: "?v \<le> q + pow2 105" by simp
  have "0 \<le> q / ?ulp" using assms(1) up by simp
  then have "0 \<le> \<lfloor>q / ?ulp\<rfloor>" by simp
  then have "0 \<le> round_half_even (q / ?ulp)"
    using rhe_lower [of "q / ?ulp"] by (rule order_trans)
  then have ge: "0 \<le> ?v" using up by simp
  have "q + pow2 105 < pow2 128"
  proof -
    have "pow2 127 + pow2 105 < pow2 128" by (simp add: pow2_def)
    with assms(2) show ?thesis by simp
  qed
  with le have "\<not> pow2 128 \<le> ?v" by simp
  then have "round32 sg q = Finite sg ?v"
    by (simp add: round32_def Let_def)
  with ge le show ?thesis by blast
qed

lemma round32_nonzero:
  assumes "1 \<le> q" and "q \<le> pow2 127" and "round32 sg q = Finite sg' v"
  shows "0 < v"
proof -
  let ?e = "binexp q"
  let ?ulp = "pow2 (?e - 23)"
  let ?v = "of_int (round_half_even (q / ?ulp)) * ?ulp"
  have up: "0 < ?ulp" by (rule pow2_pos)
  have e: "?e = exp_up 128 q" using assms(1) by (simp add: binexp_def)
  have "pow2 ?e \<le> q" unfolding e using assms(1) by (rule exp_up_lower)
  moreover have "?ulp \<le> pow2 ?e" by (intro pow2_mono) simp
  ultimately have "?ulp \<le> q" by simp
  then have "1 \<le> q / ?ulp" using up by (simp add: le_divide_eq)
  then have "1 \<le> \<lfloor>q / ?ulp\<rfloor>" by simp
  then have "1 \<le> round_half_even (q / ?ulp)"
    using rhe_lower [of "q / ?ulp"] by (rule order_trans)
  then have "(1::rat) \<le> of_int (round_half_even (q / ?ulp))" by simp
  then have pos: "0 < ?v" using up by simp
  from assms(3) have "v = ?v"
    by (simp add: round32_def Let_def split: if_splits)
  with pos show ?thesis by simp
qed

lemma pow2_neg: "pow2 (- e) = 1 / pow2 e"
  by (simp add: pow2_powi power_int_minus inverse_eq_divide)

lemma round32_exact_if:
  assumes "q / pow2 (binexp q - 23) = of_int m" and "q < pow2 128"
  shows "round32 sg q = Finite sg q"
proof -
  have up: "0 < pow2 (binexp q - 23)" by (rule pow2_pos)
  have "of_int (round_half_even (q / pow2 (binexp q - 23))) * pow2 (binexp q - 23) = q"
    using up by (simp add: assms(1) rhe_int) (simp add: assms(1) [symmetric])
  with assms(2) show ?thesis
    by (simp add: round32_def Let_def)
qed

lemma round32_int_exact:
  assumes "0 \<le> n" and "n \<le> 2 ^ 24"
  shows "round32 sg (of_int n) = Finite sg (of_int n)"
proof -
  let ?q = "rat_of_int n"
  have q24: "?q \<le> pow2 24"
  proof -
    have "?q \<le> of_int (2 ^ 24)" using assms(2) by (simp only: of_int_le_iff)
    then show ?thesis by (simp add: pow2_def)
  qed
  have "pow2 24 < pow2 128" by (simp add: pow2_def)
  with q24 have lt: "?q < pow2 128" by simp
  show ?thesis
  proof (cases "n = 0")
    case True
    have "?q / pow2 (binexp ?q - 23) = of_int 0" using True by simp
    then show ?thesis using lt by (rule round32_exact_if)
  next
    case False
    with assms(1) have "1 \<le> n" by simp
    then have q1: "1 \<le> ?q" by simp
    let ?e = "binexp ?q"
    have e: "?e = exp_up 128 ?q" using q1 by (simp add: binexp_def)
    have lo: "pow2 ?e \<le> ?q" unfolding e using q1 by (rule exp_up_lower)
    have e0: "0 \<le> ?e" unfolding e using exp_up_range by blast
    have e24: "?e \<le> 24"
    proof (rule ccontr)
      assume "\<not> ?e \<le> 24"
      then have "25 \<le> ?e" by simp
      then have "pow2 25 \<le> pow2 ?e" by (rule pow2_mono)
      with lo q24 have "pow2 25 \<le> pow2 24" by simp
      then show False by (simp add: pow2_def)
    qed
    show ?thesis
    proof (cases "?e = 24")
      case True
      with lo q24 have "?q = pow2 24" by simp
      then have "?q = of_int (2 ^ 24)" by (simp add: pow2_def)
      then have n: "n = 2 ^ 24" by (simp only: of_int_eq_iff)
      have "pow2 (?e - 23) = 2" using True by (simp add: pow2_def)
      then have "?q / pow2 (?e - 23) = of_int (2 ^ 23)" by (simp add: n)
      then show ?thesis using lt by (rule round32_exact_if)
    next
      case False
      with e24 have le: "?e \<le> 23" by simp
      define k where "k = nat (23 - ?e)"
      have "pow2 (?e - 23) = 1 / pow2 (int k)"
        using le pow2_neg [of "int k"] by (simp add: k_def)
      then have "?q / pow2 (?e - 23) = ?q * 2 ^ k" by (simp add: pow2_nat)
      also have "\<dots> = of_int (n * 2 ^ k)" by simp
      finally show ?thesis using lt by (rule round32_exact_if)
    qed
  qed
qed

lemma sint32_bound: "\<bar>sint (x :: 32 word)\<bar> \<le> 2 ^ 31"
  using sint_ge [of x] sint_lt [of x] by simp

lemma float_of_int32_exact:
  "\<bar>sint x\<bar> \<le> 2 ^ 24 \<Longrightarrow> float_of_int32 x = Finite (sint x < 0) (of_int \<bar>sint x\<bar>)"
  unfolding float_of_int32_def by (rule round32_int_exact) simp_all

lemma float_of_int32_finite:
  "\<exists>v. float_of_int32 x = Finite (sint x < 0) v \<and> 0 \<le> v \<and> v \<le> pow2 106"
proof -
  let ?q = "rat_of_int \<bar>sint x\<bar>"
  have "?q \<le> of_int (2 ^ 31)" using sint32_bound [of x] by (simp only: of_int_le_iff)
  then have q31: "?q \<le> pow2 31" by (simp add: pow2_def)
  have "pow2 31 \<le> pow2 127" by (rule pow2_mono) simp
  with q31 have "?q \<le> pow2 127" by simp
  moreover have "0 \<le> ?q" by simp
  ultimately obtain v where v: "round32 (sint x < 0) ?q = Finite (sint x < 0) v"
    "0 \<le> v" "v \<le> ?q + pow2 105"
    using round32_finite by blast
  have "pow2 31 + pow2 105 \<le> pow2 106" by (simp add: pow2_def)
  with v(3) q31 have "v \<le> pow2 106" by simp
  with v(1,2) show ?thesis by (auto simp: float_of_int32_def)
qed

lemma fsub_finite:
  assumes "0 \<le> p" "p \<le> pow2 106" "0 \<le> q" "q \<le> pow2 106"
  shows "is_finite (fsub (Finite s p) (Finite t q))"
proof -
  let ?v = "signed_val s p - signed_val t q"
  show ?thesis
  proof (cases "?v = 0")
    case True
    then show ?thesis by (simp add: is_finite_def Let_def)
  next
    case False
    have "\<bar>?v\<bar> \<le> p + q" using assms(1,3) by auto
    also have "\<dots> \<le> pow2 106 + pow2 106" using assms(2,4) by simp
    also have "\<dots> \<le> pow2 127" by (simp add: pow2_def)
    finally have "\<bar>?v\<bar> \<le> pow2 127" .
    then obtain w where "round32 (?v < 0) \<bar>?v\<bar> = Finite (?v < 0) w"
      using round32_finite [of "\<bar>?v\<bar>" "?v < 0"] by auto
    with False show ?thesis by (simp add: is_finite_def Let_def)
  qed
qed

lemma fsub_ints_finite:
  "is_finite (fsub (float_of_int32 x) (float_of_int32 y))"
proof -
  obtain v where v: "float_of_int32 x = Finite (sint x < 0) v" "0 \<le> v" "v \<le> pow2 106"
    using float_of_int32_finite by blast
  obtain w where w: "float_of_int32 y = Finite (sint y < 0) w" "0 \<le> w" "w \<le> pow2 106"
    using float_of_int32_finite by blast
  show ?thesis unfolding v(1) w(1) using v(2,3) w(2,3) by (rule fsub_finite)
qed

lemma fmul_finite_not_NaN:
  "is_finite a \<Longrightarrow> is_finite b \<Longrightarrow> fmul a b \<noteq> NaN"
  by (cases a; cases b) (simp_all add: is_finite_def round32_not_NaN)

lemma fdiv_not_NaN:
  "x \<noteq> NaN \<Longrightarrow> is_finite d \<Longrightarrow> \<not> is_zero d \<Longrightarrow> fdiv x d \<noteq> NaN"
  by (cases x; cases d) (simp_all add: is_finite_def is_zero_def round32_not_NaN)

lemma signed_val_abs: "signed_val (k < 0) (of_int \<bar>k\<bar>) = rat_of_int k"
  by simp

lemma fsub_exact_ints_nonzero:
  assumes "\<bar>sint c\<bar> \<le> 2 ^ 24" "\<bar>sint t\<bar> \<le> 2 ^ 24" "c \<noteq> t"
  shows "\<not> is_zero (fsub (float_of_int32 c) (float_of_int32 t))"
proof -
  define kc kt where "kc = sint c" and "kt = sint t"
  let ?v = "rat_of_int (kc - kt)"
  from assms(3) have ne: "kc \<noteq> kt"
    unfolding kc_def kt_def using signed_word_eqI [of c t] by blast
  then have v0: "?v \<noteq> 0" by simp
  have b: "\<bar>kc\<bar> \<le> 2 ^ 24" "\<bar>kt\<bar> \<le> 2 ^ 24"
    using assms(1,2) by (simp_all add: kc_def kt_def)
  have "1 \<le> \<bar>kc - kt\<bar>" using ne by simp
  then have "rat_of_int 1 \<le> of_int \<bar>kc - kt\<bar>" by (simp only: of_int_le_iff)
  then have v1: "1 \<le> \<bar>?v\<bar>" by simp
  have "\<bar>kc - kt\<bar> \<le> 2 ^ 25" using b by simp
  then have "rat_of_int \<bar>kc - kt\<bar> \<le> of_int (2 ^ 25)" by (simp only: of_int_le_iff)
  then have "\<bar>?v\<bar> \<le> pow2 25" by (simp add: pow2_def)
  moreover have "pow2 25 \<le> pow2 127" by (rule pow2_mono) simp
  ultimately have v127: "\<bar>?v\<bar> \<le> pow2 127" by simp
  have fc: "float_of_int32 c = Finite (kc < 0) (of_int \<bar>kc\<bar>)"
    and ft: "float_of_int32 t = Finite (kt < 0) (of_int \<bar>kt\<bar>)"
    unfolding kc_def kt_def
    using float_of_int32_exact [OF assms(1)] float_of_int32_exact [OF assms(2)] by blast+
  have "signed_val (kc < 0) (of_int \<bar>kc\<bar>) - signed_val (kt < 0) (of_int \<bar>kt\<bar>) = ?v"
    by (simp only: signed_val_abs of_int_diff)
  then have eq: "fsub (float_of_int32 c) (float_of_int32 t) = round32 (?v < 0) \<bar>?v\<bar>"
    using v0 unfolding fc ft by (simp only: fsub.simps Let_def if_False)
  obtain w where w: "round32 (?v < 0) \<bar>?v\<bar> = Finite (?v < 0) w"
    using round32_finite [of "\<bar>?v\<bar>" "?v < 0"] v127 by auto
  from round32_nonzero [OF v1 v127 w] have "0 < w" .
  then show ?thesis unfolding eq w by (simp add: is_zero_def)
qed

lemma getCalibrated_guard:
  "(calib cd - tare cd = 0) = (calib cd = tare cd)"
  by simp

lemma getCalibrated_not_NaN:
  assumes "calib (chanData (objs s this) ch) \<noteq> tare (chanData (objs s this) ch)"
    and "is_finite (decode (rangeV (chanData (objs s this) ch)))"
    and "\<not> is_zero (fsub (float_of_int32 (calib (chanData (objs s this) ch)))
                          (float_of_int32 (tare (chanData (objs s this) ch))))"
  shows "getCalibrated this ch s \<noteq> NaN"
proof -
  let ?cd = "chanData (objs s this) ch"
  have "fmul (decode (rangeV ?cd)) (fsub (float_of_int32 (raw ?cd)) (float_of_int32 (tare ?cd))) \<noteq> NaN"
    using assms(2) fsub_ints_finite by (rule fmul_finite_not_NaN)
  then have "fdiv (fmul (decode (rangeV ?cd)) (fsub (float_of_int32 (raw ?cd)) (float_of_int32 (tare ?cd))))
      (fsub (float_of_int32 (calib ?cd)) (float_of_int32 (tare ?cd))) \<noteq> NaN"
    using fsub_ints_finite assms(3) by (rule fdiv_not_NaN)
  with assms(1) show ?thesis
    by (simp add: getCalibrated_def Let_def)
qed

text \<open>
  Claim C8, as the code has it. \<open>getCalibrated\<close> returns not-a-number when calib equals
  tare, and otherwise the binary32 value of
  \<open>range * (float(raw) - float(tare)) / (float(calib) - float(tare))\<close>; it always returns
  a value. When the range is finite and the float divisor is not zero, the result is
  not-a-number exactly when calib equals tare; the divisor is not zero whenever calib and
  tare differ and both lie within \<open>2^24\<close> of zero, where the conversion to float is exact.
\<close>

theorem getCalibrated_value:
  "let cd = chanData (objs s this) ch;
       d = fsub (float_of_int32 (calib cd)) (float_of_int32 (tare cd))
   in (calib cd = tare cd \<longrightarrow> getCalibrated this ch s = NaN)
      \<and> (calib cd \<noteq> tare cd \<longrightarrow>
            getCalibrated this ch s =
              fdiv (fmul (decode (rangeV cd))
                      (fsub (float_of_int32 (raw cd)) (float_of_int32 (tare cd)))) d)
      \<and> (is_finite (decode (rangeV cd)) \<and> \<not> is_zero d \<longrightarrow>
            (getCalibrated this ch s = NaN \<longleftrightarrow> calib cd = tare cd))
      \<and> (\<bar>sint (calib cd)\<bar> \<le> 2 ^ 24 \<and> \<bar>sint (tare cd)\<bar> \<le> 2 ^ 24 \<and> calib cd \<noteq> tare cd \<longrightarrow>
            \<not> is_zero d)"
proof -
  let ?cd = "chanData (objs s this) ch"
  let ?d = "fsub (float_of_int32 (calib ?cd)) (float_of_int32 (tare ?cd))"
  have a: "calib ?cd = tare ?cd \<longrightarrow> getCalibrated this ch s = NaN"
    by (simp add: getCalibrated_def Let_def)
  have b: "calib ?cd \<noteq> tare ?cd \<longrightarrow>
      getCalibrated this ch s =
        fdiv (fmul (decode (rangeV ?cd))
                (fsub (float_of_int32 (raw ?cd)) (float_of_int32 (tare ?cd)))) ?d"
    by (simp add: getCalibrated_def Let_def)
  have c: "is_finite (decode (rangeV ?cd)) \<and> \<not> is_zero ?d \<longrightarrow>
      (getCalibrated this ch s = NaN \<longleftrightarrow> calib ?cd = tare ?cd)"
    using a getCalibrated_not_NaN [of s this ch] by blast
  have d: "\<bar>sint (calib ?cd)\<bar> \<le> 2 ^ 24 \<and> \<bar>sint (tare ?cd)\<bar> \<le> 2 ^ 24 \<and> calib ?cd \<noteq> tare ?cd \<longrightarrow>
      \<not> is_zero ?d"
    using fsub_exact_ints_nonzero by blast
  from a b c d show ?thesis
    unfolding Let_def by blast
qed

lemma example_calibrated_cd:
  "raw (chanData (objs example_calibrated 0) CH_A) = 0"
  "tare (chanData (objs example_calibrated 0) CH_A) = - 1000"
  "calib (chanData (objs example_calibrated 0) CH_A) = 1000"
  "rangeV (chanData (objs example_calibrated 0) CH_A) = 0x40A00000"
  by (simp_all add: example_calibrated_def setCalibration_def setZeroTare_def upd_def
      example_fields example_obj_def)

lemma example_large_tare_cd:
  "raw (chanData (objs example_large_tare 0) CH_A) = 0"
  "tare (chanData (objs example_large_tare 0) CH_A) = 16777216"
  "calib (chanData (objs example_large_tare 0) CH_A) = 16777217"
  "rangeV (chanData (objs example_large_tare 0) CH_A) = 0"
  by (simp_all add: example_large_tare_def setCalibration_def setZeroTare_def upd_def
      example_fields example_obj_def float_zero_def)

lemma decode_five: "decode 0x40A00000 = Finite False 5"
  by (simp add: decode_def pow2_def Let_def bit_iff_odd drop_bit_eq_div)

lemma decode_zero: "decode 0 = Finite False 0"
  by (simp add: decode_def pow2_def Let_def)

lemma conv_examples:
  "float_of_int32 0 = Finite False 0"
  "float_of_int32 1000 = Finite False 1000"
  "float_of_int32 (- 1000) = Finite True 1000"
  "float_of_int32 16777216 = Finite False 16777216"
  "float_of_int32 16777217 = Finite False 16777216"
  by code_simp+

lemma arith_examples:
  "fsub (Finite False 0) (Finite True 1000) = Finite False 1000"
  "fsub (Finite False 1000) (Finite True 1000) = Finite False 2000"
  "fmul (Finite False 5) (Finite False 1000) = Finite False 5000"
  "fdiv (Finite False 5000) (Finite False 2000) = Finite False (5 / 2)"
  "fsub (Finite False 0) (Finite False 16777216) = Finite True 16777216"
  "fsub (Finite False 16777216) (Finite False 16777216) = Finite False 0"
  "fmul (Finite False 0) (Finite True 16777216) = Finite True 0"
  "fdiv (Finite True 0) (Finite False 0) = NaN"
  by code_simp+

theorem getCalibrated_value_witness:
  "calib (chanData (objs example_calibrated 0) CH_A) \<noteq> tare (chanData (objs example_calibrated 0) CH_A)
   \<and> getCalibrated 0 CH_A example_calibrated \<noteq> NaN
   \<and> getCalibrated 0 CH_A example_calibrated = Finite False (5 / 2)"
proof -
  let ?cd = "chanData (objs example_calibrated 0) CH_A"
  have ne: "calib ?cd \<noteq> tare ?cd"
    by (simp add: example_calibrated_cd)
  have f: "is_finite (decode (rangeV ?cd))"
    by (simp add: example_calibrated_cd decode_five is_finite_def)
  have b: "\<bar>sint (calib ?cd)\<bar> \<le> 2 ^ 24" "\<bar>sint (tare ?cd)\<bar> \<le> 2 ^ 24"
    by (simp_all add: example_calibrated_cd)
  note h = getCalibrated_value [of example_calibrated 0 CH_A, unfolded Let_def]
  from h b ne have z: "\<not> is_zero (fsub (float_of_int32 (calib ?cd)) (float_of_int32 (tare ?cd)))"
    by blast
  from h f z ne have n: "getCalibrated 0 CH_A example_calibrated \<noteq> NaN"
    by blast
  from h ne have "getCalibrated 0 CH_A example_calibrated =
      fdiv (fmul (decode (rangeV ?cd)) (fsub (float_of_int32 (raw ?cd)) (float_of_int32 (tare ?cd))))
        (fsub (float_of_int32 (calib ?cd)) (float_of_int32 (tare ?cd)))"
    by blast
  then have v: "getCalibrated 0 CH_A example_calibrated = Finite False (5 / 2)"
    by (simp only: example_calibrated_cd decode_five conv_examples arith_examples)
  from ne n v show ?thesis by blast
qed

text \<open>
  Claim C8 as stated, for every stored state: with tare \<open>2^24\<close> and calibration value
  \<open>2^24 + 1\<close> both convert to the float \<open>2^24\<close>, the divisor is 0.0, and with the range
  0.0 the result is not-a-number although calib and tare differ.
\<close>

theorem getCalibrated_NaN_counterexample:
  "calib (chanData (objs example_large_tare 0) CH_A) \<noteq> tare (chanData (objs example_large_tare 0) CH_A)
   \<and> getCalibrated 0 CH_A example_large_tare = NaN"
proof -
  let ?cd = "chanData (objs example_large_tare 0) CH_A"
  have ne: "calib ?cd \<noteq> tare ?cd"
    by (simp add: example_large_tare_cd)
  then have "getCalibrated 0 CH_A example_large_tare =
      fdiv (fmul (decode (rangeV ?cd)) (fsub (float_of_int32 (raw ?cd)) (float_of_int32 (tare ?cd))))
        (fsub (float_of_int32 (calib ?cd)) (float_of_int32 (tare ?cd)))"
    by (simp add: getCalibrated_def Let_def)
  then have "getCalibrated 0 CH_A example_large_tare = NaN"
    by (simp only: example_large_tare_cd decode_zero conv_examples arith_examples)
  with ne show ?thesis by blast
qed

end
